theory Spec2Isabelle
  imports Complex_Main "HOL-Library.Word"
begin

unbundle bit_operations_syntax

chapter \<open>The embedding\<close>

section \<open>Python exceptions\<close>

text \<open>
  The exceptions that the modelled code raises from its own operations: the
  conversion of an out-of-range Python integer to a NumPy \<open>uint64\<close>, \<open>int()\<close> on a
  malformed progress payload, \<open>%\<close> by zero, an unhashable dictionary key, a method
  call on a value of the wrong type, and a socket call that fails.
\<close>

datatype py_error =
  OverflowError | ValueError | ZeroDivisionError | TypeError | AttributeError | OSError

section \<open>utils/memory\_utils.py\<close>

text \<open>
  Raw memory is a map from byte addresses to bytes. \<open>write_uint64\<close> and
  \<open>read_uint64\<close> view the eight bytes starting at \<open>addr\<close> as one NumPy \<open>uint64\<close>
  in native byte order, taken here as little-endian: the byte at \<open>addr + k\<close> holds bits
  \<open>8k .. 8k+7\<close> of the value.
\<close>

type_synonym memory = "nat \<Rightarrow> 8 word"

fun uint64_bytes :: "nat \<Rightarrow> 64 word \<Rightarrow> 8 word list" where
  "uint64_bytes 0 w = []"
| "uint64_bytes (Suc n) w = ucast w # uint64_bytes n (drop_bit 8 w)"

fun bytes_uint64 :: "8 word list \<Rightarrow> 64 word" where
  "bytes_uint64 [] = 0"
| "bytes_uint64 (b # bs) = ucast b OR push_bit 8 (bytes_uint64 bs)"

fun store_bytes :: "nat \<Rightarrow> 8 word list \<Rightarrow> memory \<Rightarrow> memory" where
  "store_bytes addr [] mem = mem"
| "store_bytes addr (b # bs) mem = store_bytes (addr + 1) bs (mem(addr := b))"

fun load_bytes :: "nat \<Rightarrow> nat \<Rightarrow> memory \<Rightarrow> 8 word list" where
  "load_bytes addr 0 mem = []"
| "load_bytes addr (Suc n) mem = mem addr # load_bytes (addr + 1) n mem"

text \<open>The \<open>uint64\<close> view of the eight bytes at \<open>addr\<close>: element 0 of the array.\<close>

definition store_uint64 :: "nat \<Rightarrow> 64 word \<Rightarrow> memory \<Rightarrow> memory" where
  "store_uint64 addr w mem = store_bytes addr (uint64_bytes 8 w) mem"

definition load_uint64 :: "nat \<Rightarrow> memory \<Rightarrow> 64 word" where
  "load_uint64 addr mem = bytes_uint64 (load_bytes addr 8 mem)"

text \<open>
  \<open>arr[0] = value\<close>: NumPy converts the Python integer to \<open>uint64\<close> and raises
  \<open>OverflowError\<close> when it does not fit.
\<close>

definition write_uint64 :: "nat \<Rightarrow> int \<Rightarrow> memory \<Rightarrow> py_error + memory" where
  "write_uint64 addr v mem =
     (if 0 \<le> v \<and> v < 2 ^ 64 then Inr (store_uint64 addr (word_of_int v) mem)
      else Inl OverflowError)"

text \<open>\<open>int(arr[0])\<close>: the unsigned value as a Python integer.\<close>

definition read_uint64 :: "nat \<Rightarrow> memory \<Rightarrow> int" where
  "read_uint64 addr mem = uint (load_uint64 addr mem)"

text \<open>The all-ones header value \<open>0xFFFFFFFFFFFFFFFF\<close> that marks an empty slot.\<close>

definition SENTINEL :: int where
  "SENTINEL = 18446744073709551615"

section \<open>utils/tcp\_server.py\<close>

text \<open>
  A request line and its response are JSON values. Floating-point numbers are left out
  of the model: the examples exchange strings only.
\<close>

datatype json =
    JNull
  | JBool bool
  | JInt int
  | JStr string
  | JArr "json list"
  | JObj "(string \<times> json) list"

text \<open>
  \<open>request.get(name)\<close> on the dictionary that \<open>json.loads\<close> builds from an object:
  the last binding of a repeated member wins, and a missing member gives \<open>None\<close>, which
  is also what JSON \<open>null\<close> loads as.
\<close>

definition obj_get :: "(string \<times> json) list \<Rightarrow> string \<Rightarrow> json" where
  "obj_get members name = (case map_of (rev members) name of None \<Rightarrow> JNull | Some v \<Rightarrow> v)"

text \<open>
  The keys of the dictionary \<open>_metadata\<close>. Python hashes \<open>True\<close> and \<open>1\<close> (and
  \<open>False\<close> and \<open>0\<close>) to the same key; lists and dictionaries are unhashable and
  raise \<open>TypeError\<close>.
\<close>

datatype dict_key = KNone | KInt int | KStr string

fun hashable :: "json \<Rightarrow> py_error + dict_key" where
  "hashable JNull = Inr KNone"
| "hashable (JBool b) = Inr (KInt (if b then 1 else 0))"
| "hashable (JInt n) = Inr (KInt n)"
| "hashable (JStr s) = Inr (KStr s)"
| "hashable (JArr xs) = Inl TypeError"
| "hashable (JObj ms) = Inl TypeError"

type_synonym metadata = "dict_key \<rightharpoonup> json"

text \<open>
  The response object. The text of an error message is kept symbolic: which message it
  is, and the value that is formatted into it.
\<close>

datatype message =
    KeyNotFound json
  | UnknownCommand json
  | InvalidJSON
  | ExceptionText py_error

datatype response =
    StatusOK
  | StatusOKValue json
  | StatusError message

text \<open>
  \<open>MetadataHandler.handle\<close>, on the result of \<open>json.loads\<close> (\<open>None\<close> when the line is
  not valid JSON) and the server's dictionary. Each branch runs under the lock, so a
  request is one atomic step on the dictionary. A request that is not an object has no
  \<open>get\<close> method, and an unhashable key cannot index the dictionary: both end in the
  handler's \<open>except Exception\<close>.
\<close>

fun handle :: "json option \<Rightarrow> metadata \<Rightarrow> response \<times> metadata" where
  "handle None md = (StatusError InvalidJSON, md)"
| "handle (Some (JObj request)) md =
     (let cmd = obj_get request ''cmd'' in
      if cmd = JStr ''SET'' then
        (case hashable (obj_get request ''key'') of
           Inl e \<Rightarrow> (StatusError (ExceptionText e), md)
         | Inr key \<Rightarrow> (StatusOK, md(key \<mapsto> obj_get request ''value'')))
      else if cmd = JStr ''GET'' then
        (case hashable (obj_get request ''key'') of
           Inl e \<Rightarrow> (StatusError (ExceptionText e), md)
         | Inr key \<Rightarrow>
             (let v = (case md key of None \<Rightarrow> JNull | Some v \<Rightarrow> v) in
              if v \<noteq> JNull then (StatusOKValue v, md)
              else (StatusError (KeyNotFound (obj_get request ''key'')), md)))
      else if cmd = JStr ''CLEAR'' then (StatusOK, Map.empty)
      else (StatusError (UnknownCommand cmd), md))"
| "handle (Some request) md = (StatusError (ExceptionText AttributeError), md)"

text \<open>
  The client API: one request, one response. \<open>set_metadata\<close> and \<open>clear_metadata\<close>
  return whether the status is \<open>OK\<close>; \<open>get_metadata\<close> returns the value of an
  \<open>OK\<close> response and \<open>None\<close> (here \<open>JNull\<close>) otherwise. These are the results
  of a round trip that completes: the connection is made and the one \<open>recv(4096)\<close>
  reads the reply line whole. A round trip that raises or never returns is an answer of
  the caller's environment, in the section on \<open>utils/metadata_utils.py\<close>.
\<close>

definition set_metadata :: "string \<Rightarrow> json \<Rightarrow> metadata \<Rightarrow> bool \<times> metadata" where
  "set_metadata key v md =
     (let (resp, md') =
        handle (Some (JObj [(''cmd'', JStr ''SET''), (''key'', JStr key), (''value'', v)])) md
      in (resp = StatusOK, md'))"

definition get_metadata :: "string \<Rightarrow> metadata \<Rightarrow> json" where
  "get_metadata key md =
     (case fst (handle (Some (JObj [(''cmd'', JStr ''GET''), (''key'', JStr key)])) md) of
        StatusOK \<Rightarrow> JNull
      | StatusOKValue v \<Rightarrow> v
      | StatusError m \<Rightarrow> JNull)"

definition clear_metadata :: "metadata \<Rightarrow> bool \<times> metadata" where
  "clear_metadata md =
     (let (resp, md') = handle (Some (JObj [(''cmd'', JStr ''CLEAR'')])) md
      in (resp = StatusOK, md'))"

text \<open>The two requests that claim C9 is about.\<close>

definition SET :: "string \<Rightarrow> json \<Rightarrow> json option" where
  "SET key v = Some (JObj [(''cmd'', JStr ''SET''), (''key'', JStr key), (''value'', v)])"

definition GET :: "string \<Rightarrow> json option" where
  "GET key = Some (JObj [(''cmd'', JStr ''GET''), (''key'', JStr key)])"

section \<open>Runs against an environment\<close>

text \<open>
  The peers are separate processes. What the other side does reaches the code only through
  the results of its polls: the notifications that \<open>get_new_notifs()\<close> drains, the
  states that \<open>check_xfer_state\<close> and \<open>transfer\<close> report, and the bytes that remote
  writes leave in memory. A run is modelled against a finite record of these answers,
  consumed one per call. A loop that is still polling when the record ends is
  \<open>Pending\<close>: the record was too short to see it return. \<open>Pending\<close> and \<open>Raised\<close>
  carry the state reached, so that a property of every reachable state also covers the
  runs that never return.
\<close>

datatype ('s, 'a) outcome = Pending 's | Raised py_error 's | Returned 'a

text \<open>One result of \<open>get_new_notifs()\<close>: the payloads drained, by sending agent.\<close>

type_synonym notifs = "string \<rightharpoonup> string list"

datatype xfer_state = PROC | DONE | ERR

text \<open>\<open>check_xfer_state\<close> reports a state or raises.\<close>

datatype poll_outcome = Polled xfer_state | PollRaised

text \<open>
  The trace of a run: the calls that act on the outside world and the assignments to
  \<open>receiver_progress\<close> and to \<open>ahead_count\<close>, in program order.
\<close>

datatype event =
    SendNotif string string
  | Sleep rat
  | ReadHeader nat int
  | WriteHeader nat int
  | SetProgress int
  | CheckXferState nat poll_outcome
  | Transfer nat nat xfer_state
  | ReleaseXferHandle nat
  | ReleaseDlistHandle string
  | DeregisterMemory
  | FreePassthru
  | GetMetadata string
  | FetchRemoteMetadata string
  | CheckRemoteMetadata string
  | AheadCount int

section \<open>The descriptor handshake (send\_recv/nixl\_sender\_receiver.py, 2proc/nixl\_api\_2proc.py)\<close>

subsection \<open>The side that holds the descriptors\<close>

text \<open>\<open>peer in notifs and b"READY" in notifs[peer]\<close>\<close>

definition ready_in :: "string \<Rightarrow> notifs \<Rightarrow> bool" where
  "ready_in peer n = (case n peer of None \<Rightarrow> False | Some msgs \<Rightarrow> ''READY'' \<in> set msgs)"

text \<open>
  \<open>while not got_ready\<close>: send \<open>READY\<close>, drain the notifications, and sleep 10 ms
  unless the peer's \<open>READY\<close> is among them.
\<close>

fun wait_for_ready :: "string \<Rightarrow> notifs list \<Rightarrow> event list \<Rightarrow> (event list, event list) outcome" where
  "wait_for_ready peer [] evs = Pending (evs @ [SendNotif peer ''READY''])"
| "wait_for_ready peer (n # ns) evs =
     (if ready_in peer n then Returned (evs @ [SendNotif peer ''READY''])
      else wait_for_ready peer ns (evs @ [SendNotif peer ''READY'', Sleep (1 / 100)]))"

text \<open>The loop, then \<open>send_notif(peer, b"DESCS:" + serialized_descs)\<close>.\<close>

definition send_descs :: "string \<Rightarrow> string \<Rightarrow> notifs list \<Rightarrow> (event list, event list) outcome" where
  "send_descs peer serialized_descs drains =
     (case wait_for_ready peer drains [] of
        Returned evs \<Rightarrow> Returned (evs @ [SendNotif peer (''DESCS:'' @ serialized_descs)])
      | Pending evs \<Rightarrow> Pending evs
      | Raised e evs \<Rightarrow> Raised e evs)"

text \<open>The receiver (lines 124-140) and the target (lines 98-114) run the same exchange.\<close>

definition receiver_exchange :: "string \<Rightarrow> notifs list \<Rightarrow> (event list, event list) outcome" where
  "receiver_exchange = send_descs ''sender''"

definition target_exchange :: "string \<Rightarrow> notifs list \<Rightarrow> (event list, event list) outcome" where
  "target_exchange = send_descs ''initiator''"

subsection \<open>The side that requests the descriptors\<close>

definition is_descs :: "string \<Rightarrow> bool" where
  "is_descs msg = (take 6 msg = ''DESCS:'')"

text \<open>
  \<open>for msg in notifs[peer]\<close>: the first payload that starts with \<open>DESCS:\<close> is
  deserialized without its six-byte prefix, and the scan breaks. \<open>deserialize_descs\<close>
  belongs to the agent; its result is a Python value, \<open>None\<close> included.
\<close>

fun scan_descs :: "(string \<Rightarrow> 'd option) \<Rightarrow> string list \<Rightarrow> 'd option" where
  "scan_descs deserialize_descs [] = None"
| "scan_descs deserialize_descs (msg # msgs) =
     (if is_descs msg then deserialize_descs (drop 6 msg)
      else scan_descs deserialize_descs msgs)"

definition peer_msgs :: "string \<Rightarrow> notifs \<Rightarrow> string list" where
  "peer_msgs peer n = (case n peer of None \<Rightarrow> [] | Some msgs \<Rightarrow> msgs)"

text \<open>
  \<open>for _ in range(k)\<close>: drain and scan, and break once the descriptors are not
  \<open>None\<close>. The result is \<open>None\<close> when the record of drains ends first.
\<close>

fun poll_descs ::
  "string \<Rightarrow> (string \<Rightarrow> 'd option) \<Rightarrow> nat \<Rightarrow> notifs list \<Rightarrow> ('d option \<times> notifs list) option" where
  "poll_descs peer deserialize_descs 0 ns = Some (None, ns)"
| "poll_descs peer deserialize_descs (Suc k) [] = None"
| "poll_descs peer deserialize_descs (Suc k) (n # ns) =
     (case scan_descs deserialize_descs (peer_msgs peer n) of
        Some d \<Rightarrow> Some (Some d, ns)
      | None \<Rightarrow> poll_descs peer deserialize_descs k ns)"

lemma poll_descs_length:
  "poll_descs peer deserialize_descs k ns = Some (None, ns') \<Longrightarrow> length ns' + k = length ns"
  by (induction peer deserialize_descs k ns rule: poll_descs.induct)
     (auto split: option.splits)

text \<open>
  \<open>while descs is None\<close>: send \<open>READY\<close> when \<open>ready_count % 5 == 0\<close>, count the
  iteration, poll three times, and sleep 10 ms if the descriptors are still missing.
\<close>

function wait_for_descs ::
  "string \<Rightarrow> (string \<Rightarrow> 'd option) \<Rightarrow> nat \<Rightarrow> notifs list \<Rightarrow> event list
     \<Rightarrow> (event list, 'd \<times> event list) outcome" where
  "wait_for_descs peer deserialize_descs ready_count ns evs =
     (let evs1 = (if ready_count mod 5 = 0 then evs @ [SendNotif peer ''READY''] else evs) in
      case poll_descs peer deserialize_descs 3 ns of
        None \<Rightarrow> Pending evs1
      | Some (Some d, ns') \<Rightarrow> Returned (d, evs1)
      | Some (None, ns') \<Rightarrow>
          wait_for_descs peer deserialize_descs (ready_count + 1) ns' (evs1 @ [Sleep (1 / 100)]))"
  by pat_completeness auto
termination
  by (relation "measure (\<lambda>(peer, deserialize_descs, ready_count, ns, evs). length ns)")
     (auto dest: poll_descs_length)

text \<open>The sender (lines 274-294) and the initiator (lines 179-200) run the same loop.\<close>

definition sender_exchange ::
  "(string \<Rightarrow> 'd option) \<Rightarrow> notifs list \<Rightarrow> (event list, 'd \<times> event list) outcome" where
  "sender_exchange deserialize_descs drains = wait_for_descs ''receiver'' deserialize_descs 0 drains []"

definition initiator_exchange ::
  "(string \<Rightarrow> 'd option) \<Rightarrow> notifs list \<Rightarrow> (event list, 'd \<times> event list) outcome" where
  "initiator_exchange deserialize_descs drains = wait_for_descs ''target'' deserialize_descs 0 drains []"

text \<open>
  What the specification says the requesting side sends: \<open>READY\<close> at the start of every
  fifth iteration (iterations 0, 5, 10, ...), a sleep after each of the \<open>n\<close> iterations
  that found nothing, and then the iteration that finds the descriptors.
\<close>

definition ready_if :: "string \<Rightarrow> nat \<Rightarrow> event list" where
  "ready_if peer j = (if j mod 5 = 0 then [SendNotif peer ''READY''] else [])"

definition throttled_ready_log :: "string \<Rightarrow> nat \<Rightarrow> event list" where
  "throttled_ready_log peer n =
     concat (map (\<lambda>j. ready_if peer j @ [Sleep (1 / 100)]) [0..<n]) @ ready_if peer n"

declare wait_for_descs.simps [simp del]

text \<open>A notification that carries descriptors, as an event of the trace.\<close>

fun is_descs_send :: "event \<Rightarrow> bool" where
  "is_descs_send (SendNotif peer msg) = is_descs msg"
| "is_descs_send e = False"

text \<open>
  A history in which the descriptors arrive late: fifteen empty drains, a \<open>DESCS:\<close>
  payload from another agent, and then the peer's descriptors in the seventeenth drain,
  which is the second poll of iteration 5.
\<close>

definition late_descs_drains :: "notifs list" where
  "late_descs_drains =
     [Map.empty, Map.empty, Map.empty, Map.empty, Map.empty,
      Map.empty, Map.empty, Map.empty, Map.empty, Map.empty,
      Map.empty, Map.empty, Map.empty, Map.empty, Map.empty,
      [''other'' \<mapsto> [''DESCS:zzz'']],
      [''receiver'' \<mapsto> [''P:1'', ''DESCS:abc'', ''DESCS:def'']]]"

section \<open>utils/metadata\_utils.py\<close>

text \<open>
  Time is a rational number of seconds on the clock that \<open>time.time()\<close> reads. What a
  blocking call does is an answer of the environment: it returns a result after some
  seconds, it raises after some seconds, or it never returns. The environment of a
  retrieval is the record of these answers, one per call, in the order of the calls.

  For \<open>tcp_server.get_metadata\<close> the result is the dictionary against which the server
  handles the \<open>GET\<close>, the reply being read whole by the client's one \<open>recv(4096)\<close>. A
  refused connection, and a reply that \<open>recv(4096)\<close> cuts short so that \<open>json.loads\<close>
  fails, are answers that raise; the socket has no timeout, so a reply that never comes
  is an answer that never returns. For \<open>agent.check_remote_metadata\<close> the result is
  its truth value. The seconds of an answer count everything between two tests of the
  loop condition except the nominal 0.1 s of \<open>time.sleep(0.1)\<close>: the call itself and
  whatever the sleep takes beyond 0.1 s.
\<close>

datatype 'a call = Returns rat 'a | Raises rat py_error | Blocks

fun took :: "'a call \<Rightarrow> rat" where
  "took (Returns d a) = d"
| "took (Raises d e) = d"
| "took Blocks = 0"

record env =
  get_metadata_calls :: "metadata call list"
  fetch_remote_metadata_call :: "unit call"
  check_remote_metadata_calls :: "bool call list"

text \<open>Python's truth value, as \<open>not metadata_b64\<close> tests it.\<close>

fun truthy :: "json \<Rightarrow> bool" where
  "truthy JNull = False"
| "truthy (JBool b) = b"
| "truthy (JInt n) = (n \<noteq> 0)"
| "truthy (JStr s) = (s \<noteq> [])"
| "truthy (JArr xs) = (xs \<noteq> [])"
| "truthy (JObj ms) = (ms \<noteq> [])"

text \<open>
  The TCP branch of \<open>retrieve_agent_metadata\<close>, on the answers still to come. A call
  for which the record has no answer has not returned.
  \<^verbatim>\<open>while not metadata_b64 and (time.time() - start_wait) < timeout:
    metadata_b64 = tcp_server.get_metadata(key, host, port)
    if not metadata_b64:
        time.sleep(0.1)\<close>
\<close>

fun poll_metadata ::
  "string \<Rightarrow> rat \<Rightarrow> rat \<Rightarrow> metadata call list \<Rightarrow> rat \<Rightarrow> json \<Rightarrow> event list
     \<Rightarrow> (rat \<times> event list, json \<times> rat \<times> event list) outcome" where
  "poll_metadata key start_wait timeout [] now metadata_b64 evs =
     (if \<not> truthy metadata_b64 \<and> now - start_wait < timeout
      then Pending (now, evs @ [GetMetadata key])
      else Returned (metadata_b64, now, evs))"
| "poll_metadata key start_wait timeout (Blocks # rest) now metadata_b64 evs =
     (if \<not> truthy metadata_b64 \<and> now - start_wait < timeout
      then Pending (now, evs @ [GetMetadata key])
      else Returned (metadata_b64, now, evs))"
| "poll_metadata key start_wait timeout (Raises d err # rest) now metadata_b64 evs =
     (if \<not> truthy metadata_b64 \<and> now - start_wait < timeout
      then Raised err (now + d, evs @ [GetMetadata key])
      else Returned (metadata_b64, now, evs))"
| "poll_metadata key start_wait timeout (Returns d md # rest) now metadata_b64 evs =
     (if \<not> truthy metadata_b64 \<and> now - start_wait < timeout then
        (let m = get_metadata key md; evs1 = evs @ [GetMetadata key] in
         if \<not> truthy m
         then poll_metadata key start_wait timeout rest (now + d + 1 / 10) m
                (evs1 @ [Sleep (1 / 10)])
         else poll_metadata key start_wait timeout rest (now + d) m evs1)
      else Returned (metadata_b64, now, evs))"

text \<open>
  The built-in branch, after \<open>fetch_remote_metadata\<close>:
  \<^verbatim>\<open>while (time.time() - start_wait) < timeout:
    if agent.check_remote_metadata(remote_agent_name):
        return remote_agent_name
    time.sleep(0.1)
return None\<close>
\<close>

fun poll_remote_metadata ::
  "string \<Rightarrow> rat \<Rightarrow> rat \<Rightarrow> bool call list \<Rightarrow> rat \<Rightarrow> event list
     \<Rightarrow> (rat \<times> event list, string option \<times> rat \<times> event list) outcome" where
  "poll_remote_metadata remote_agent_name start_wait timeout [] now evs =
     (if now - start_wait < timeout
      then Pending (now, evs @ [CheckRemoteMetadata remote_agent_name])
      else Returned (None, now, evs))"
| "poll_remote_metadata remote_agent_name start_wait timeout (Blocks # rest) now evs =
     (if now - start_wait < timeout
      then Pending (now, evs @ [CheckRemoteMetadata remote_agent_name])
      else Returned (None, now, evs))"
| "poll_remote_metadata remote_agent_name start_wait timeout (Raises d err # rest) now evs =
     (if now - start_wait < timeout
      then Raised err (now + d, evs @ [CheckRemoteMetadata remote_agent_name])
      else Returned (None, now, evs))"
| "poll_remote_metadata remote_agent_name start_wait timeout (Returns d loaded # rest) now evs =
     (if now - start_wait < timeout then
        (if loaded
         then Returned (Some remote_agent_name, now + d,
                evs @ [CheckRemoteMetadata remote_agent_name])
         else poll_remote_metadata remote_agent_name start_wait timeout rest (now + d + 1 / 10)
                (evs @ [CheckRemoteMetadata remote_agent_name, Sleep (1 / 10)]))
      else Returned (None, now, evs))"

text \<open>
  \<open>retrieve_agent_metadata\<close>, entered at time \<open>now\<close>. \<open>base64.b64decode\<close> and the
  agent's \<open>add_remote_agent\<close> are parameters; a value that is not a string has no
  \<open>encode\<close> method. The result is the remote agent's name or \<open>None\<close>, with the clock
  and the trace. In the built-in mode \<open>start_wait\<close> is read after
  \<open>fetch_remote_metadata\<close> has returned, and what that call raises is raised again.
\<close>

definition retrieve_agent_metadata ::
  "(string \<Rightarrow> py_error + string) \<Rightarrow> (string \<Rightarrow> string) \<Rightarrow> env \<Rightarrow> string \<Rightarrow> rat \<Rightarrow> bool
     \<Rightarrow> string option \<Rightarrow> rat
     \<Rightarrow> (rat \<times> event list, string option \<times> rat \<times> event list) outcome" where
  "retrieve_agent_metadata b64decode add_remote_agent e key timeout use_nixl_builtin
       remote_agent_name now =
     (if use_nixl_builtin then
        (case remote_agent_name of
           None \<Rightarrow> Returned (None, now, [])
         | Some name \<Rightarrow>
             if name = [] then Returned (None, now, [])
             else (case fetch_remote_metadata_call e of
                     Blocks \<Rightarrow> Pending (now, [FetchRemoteMetadata name])
                   | Raises d err \<Rightarrow> Raised err (now + d, [FetchRemoteMetadata name])
                   | Returns d u \<Rightarrow>
                       poll_remote_metadata name (now + d) timeout
                         (check_remote_metadata_calls e) (now + d) [FetchRemoteMetadata name]))
      else
        (case poll_metadata key now timeout (get_metadata_calls e) now JNull [] of
           Pending s \<Rightarrow> Pending s
         | Raised err s \<Rightarrow> Raised err s
         | Returned (metadata_b64, now', evs) \<Rightarrow>
             if \<not> truthy metadata_b64 then Returned (None, now', evs)
             else (case metadata_b64 of
                     JStr s \<Rightarrow>
                       (case b64decode s of
                          Inl err \<Rightarrow> Raised err (now', evs)
                        | Inr metadata \<Rightarrow>
                            Returned (Some (add_remote_agent metadata), now', evs))
                   | _ \<Rightarrow> Raised AttributeError (now', evs))))"

text \<open>
  \<open>retrieve_descriptors\<close>: one \<open>get_metadata\<close>, no loop and no timeout parameter.
\<close>

definition retrieve_descriptors ::
  "(string \<Rightarrow> py_error + string) \<Rightarrow> (string \<Rightarrow> 'd option) \<Rightarrow> env \<Rightarrow> string \<Rightarrow> rat
     \<Rightarrow> (rat \<times> event list, 'd option \<times> rat \<times> event list) outcome" where
  "retrieve_descriptors b64decode deserialize_descs e key now =
     (case get_metadata_calls e of
        [] \<Rightarrow> Pending (now, [GetMetadata key])
      | Blocks # rest \<Rightarrow> Pending (now, [GetMetadata key])
      | Raises d err # rest \<Rightarrow> Raised err (now + d, [GetMetadata key])
      | Returns d md # rest \<Rightarrow>
          (let serialized_b64 = get_metadata key md in
           if \<not> truthy serialized_b64 then Returned (None, now + d, [GetMetadata key])
           else (case serialized_b64 of
                   JStr s \<Rightarrow>
                     (case b64decode s of
                        Inl err \<Rightarrow> Raised err (now + d, [GetMetadata key])
                      | Inr serialized \<Rightarrow>
                          Returned (deserialize_descs serialized, now + d, [GetMetadata key]))
                 | _ \<Rightarrow> Raised AttributeError (now + d, [GetMetadata key]))))"

text \<open>
  Reading a record of answers. A lookup that finds nothing: the call returns, the clock
  has not gone back, and the server's dictionary does not bind the key. A check that
  finds nothing: it returns false. \<open>elapsed\<close> is the time that a run of polls takes when
  each is followed by the sleep, and \<open>poll_trace\<close> is the trace they leave.
\<close>

fun absent :: "string \<Rightarrow> metadata call \<Rightarrow> bool" where
  "absent key (Returns d md) = (0 \<le> d \<and> md (KStr key) = None)"
| "absent key c = False"

fun not_loaded :: "bool call \<Rightarrow> bool" where
  "not_loaded (Returns d loaded) = (0 \<le> d \<and> \<not> loaded)"
| "not_loaded c = False"

definition elapsed :: "'a call list \<Rightarrow> rat" where
  "elapsed cs = sum_list (map (\<lambda>c. took c + 1 / 10) cs)"

definition poll_trace :: "event \<Rightarrow> nat \<Rightarrow> event list" where
  "poll_trace ev k = concat (replicate k [ev, Sleep (1 / 10)])"

text \<open>
  Two environments for concrete retrievals with a timeout of half a second. In the first
  nothing is ever published or loaded and every call takes 20 ms. In the second the
  third lookup, and the second check, find what they look for, and the calls after them
  never return.
\<close>

definition silent_env :: env where
  "silent_env =
     \<lparr>get_metadata_calls =
        [Returns (1 / 50) Map.empty, Returns (1 / 50) Map.empty, Returns (1 / 50) Map.empty,
         Returns (1 / 50) Map.empty, Returns (1 / 50) Map.empty],
      fetch_remote_metadata_call = Returns (1 / 100) (),
      check_remote_metadata_calls =
        [Returns (1 / 50) False, Returns (1 / 50) False, Returns (1 / 50) False,
         Returns (1 / 50) False, Returns (1 / 50) False]\<rparr>"

definition publishing_env :: env where
  "publishing_env =
     \<lparr>get_metadata_calls =
        [Returns 0 Map.empty, Returns (1 / 50) Map.empty,
         Returns (1 / 100) [KStr ''target_meta'' \<mapsto> JStr ''QUJD''], Blocks],
      fetch_remote_metadata_call = Returns (1 / 100) (),
      check_remote_metadata_calls = [Returns 0 False, Returns (1 / 100) True, Blocks]\<rparr>"

text \<open>A base64 decoder that knows one string, for concrete retrievals.\<close>

definition b64decode_QUJD :: "string \<Rightarrow> py_error + string" where
  "b64decode_QUJD s = (if s = ''QUJD'' then Inr ''ABC'' else Inl ValueError)"

text \<open>Environments in which only the lookups matter.\<close>

definition lookups :: "metadata call list \<Rightarrow> env" where
  "lookups cs =
     \<lparr>get_metadata_calls = cs, fetch_remote_metadata_call = Blocks,
      check_remote_metadata_calls = []\<rparr>"

section \<open>The ring pipeline: configuration (send\_recv/nixl\_sender\_receiver.py)\<close>

text \<open>
  The module-level constants. \<open>run_test\<close> reassigns \<open>NUM_BUFFERS\<close>, \<open>BUFFER_SIZE\<close>
  and \<open>NUM_TRANSFERS\<close> and leaves the two backpressure constants as the module
  computed them when it was loaded, so the loops take all five from a configuration, in
  which they are independent; \<open>module_config\<close> holds the values that the module
  itself assigns.
\<close>

record config =
  NUM_BUFFERS :: nat
  BUFFER_SIZE :: nat
  NUM_TRANSFERS :: nat
  PROGRESS_UPDATE_INTERVAL :: nat
  BACKPRESSURE_THRESHOLD :: int

definition module_config :: config where
  "module_config =
     \<lparr>NUM_BUFFERS = 64,
      BUFFER_SIZE = 16 * 1024 * 1024,
      NUM_TRANSFERS = 1000,
      PROGRESS_UPDATE_INTERVAL = max 1 (64 div 4),
      BACKPRESSURE_THRESHOLD = 64 - 4\<rparr>"

definition BUFFER_BASE_OFFSET :: nat where
  "BUFFER_BASE_OFFSET = 2"

text \<open>\<open>BUFFER_ENTRY_SIZE = BUFFER_SIZE\<close>\<close>

definition BUFFER_ENTRY_SIZE :: "config \<Rightarrow> nat" where
  "BUFFER_ENTRY_SIZE cfg = BUFFER_SIZE cfg"

text \<open>\<open>str\<close> of a non-negative integer, as the f-string \<open>f"P:{transfers_received}"\<close> renders it.\<close>

definition digit_char :: "nat \<Rightarrow> char" where
  "digit_char d = ''0123456789'' ! d"

function str_nat :: "nat \<Rightarrow> string" where
  "str_nat n = (if n < 10 then [digit_char n] else str_nat (n div 10) @ [digit_char (n mod 10)])"
  by pat_completeness auto
termination
  by (relation "measure (\<lambda>n. n)") auto

declare str_nat.simps [simp del]

text \<open>
  What every process of the pipeline carries: its trace and its local memory. The
  outcome of a loop reaches a state whether the loop returned or not.
\<close>

record process =
  trace :: "event list"
  local_mem :: memory

fun reached :: "('s, 's) outcome \<Rightarrow> 's" where
  "reached (Pending s) = s"
| "reached (Raised e s) = s"
| "reached (Returned s) = s"

fun reached_snd :: "('s, 'a \<times> 's) outcome \<Rightarrow> 's" where
  "reached_snd (Pending s) = s"
| "reached_snd (Raised e s) = s"
| "reached_snd (Returned r) = snd r"

section \<open>The consumer: receiver\_process\<close>

text \<open>
  The receiver's counters, and what the sender will still write into the receiver's
  memory: one batch of \<open>(address, value)\<close> header writes lands before each
  \<open>read_uint64\<close> of the poll loop.
\<close>

record receiver_state = process +
  transfers_received :: nat
  progress_updates_sent :: nat
  sequence_mismatches :: nat
  remote_writes :: "(nat \<times> 64 word) list list"

fun apply_writes :: "(nat \<times> 64 word) list \<Rightarrow> memory \<Rightarrow> memory" where
  "apply_writes [] m = m"
| "apply_writes ((addr, w) # ws) m = apply_writes ws (store_uint64 addr w m)"

text \<open>
  Lines 104-107: every header starts as the sentinel.
  \<^verbatim>\<open>for i in range(NUM_BUFFERS):
    write_uint64(buffer_base_addr + i * BUFFER_ENTRY_SIZE, 0xFFFFFFFFFFFFFFFF)\<close>
\<close>

fun init_headers :: "config \<Rightarrow> nat \<Rightarrow> nat list \<Rightarrow> memory \<Rightarrow> py_error + memory" where
  "init_headers cfg buffer_base_addr [] m = Inr m"
| "init_headers cfg buffer_base_addr (i # is) m =
     (case write_uint64 (buffer_base_addr + i * BUFFER_ENTRY_SIZE cfg) SENTINEL m of
        Inl e \<Rightarrow> Inl e
      | Inr m' \<Rightarrow> init_headers cfg buffer_base_addr is m')"

text \<open>
  Lines 170-173, on the batches still to land:
  \<^verbatim>\<open>while True:
    seq = read_uint64(buffer_offset)
    if seq == transfers_received:
        break\<close>
\<close>

fun poll_header ::
  "nat \<Rightarrow> (nat \<times> 64 word) list list \<Rightarrow> receiver_state
     \<Rightarrow> (receiver_state, int \<times> receiver_state) outcome" where
  "poll_header buffer_offset [] st = Pending (st\<lparr>remote_writes := []\<rparr>)"
| "poll_header buffer_offset (ws # rest) st =
     (let m = apply_writes ws (local_mem st);
          seq = read_uint64 buffer_offset m;
          st1 = st\<lparr>local_mem := m, remote_writes := rest,
                   trace := trace st @ [ReadHeader buffer_offset seq]\<rparr>
      in if seq = int (transfers_received st) then Returned (seq, st1)
         else poll_header buffer_offset rest st1)"

text \<open>One pass through the body of \<open>while transfers_received < NUM_TRANSFERS\<close> (lines 165-198).\<close>

definition receiver_iteration ::
  "config \<Rightarrow> string \<Rightarrow> nat \<Rightarrow> receiver_state \<Rightarrow> (receiver_state, receiver_state) outcome" where
  "receiver_iteration cfg sender_name buffer_base_addr st =
     (if NUM_BUFFERS cfg = 0 then Raised ZeroDivisionError st
      else
        let buffer_idx = transfers_received st mod NUM_BUFFERS cfg;
            buffer_offset = buffer_base_addr + buffer_idx * BUFFER_ENTRY_SIZE cfg
        in case poll_header buffer_offset (remote_writes st) st of
             Pending s \<Rightarrow> Pending s
           | Raised e s \<Rightarrow> Raised e s
           | Returned (seq, st1) \<Rightarrow>
               let st2 = (if seq \<noteq> int (transfers_received st1)
                          then st1\<lparr>sequence_mismatches := sequence_mismatches st1 + 1\<rparr>
                          else st1)
               in case write_uint64 buffer_offset SENTINEL (local_mem st2) of
                    Inl e \<Rightarrow> Raised e st2
                  | Inr m \<Rightarrow>
                      let st3 = st2\<lparr>local_mem := m,
                                     trace := trace st2 @ [WriteHeader buffer_offset SENTINEL],
                                     transfers_received := transfers_received st2 + 1\<rparr>
                      in if PROGRESS_UPDATE_INTERVAL cfg = 0 then Raised ZeroDivisionError st3
                         else if transfers_received st3 mod PROGRESS_UPDATE_INTERVAL cfg = 0
                         then Returned
                           (st3\<lparr>trace := trace st3 @
                                   [SendNotif sender_name (''P:'' @ str_nat (transfers_received st3))],
                                 progress_updates_sent := progress_updates_sent st3 + 1\<rparr>)
                         else Returned st3)"

lemma poll_header_count:
  "poll_header buffer_offset ws st = Returned (seq, st1)
     \<Longrightarrow> transfers_received st1 = transfers_received st"
  by (induction ws arbitrary: st) (auto simp add: Let_def split: if_splits)

lemma receiver_iteration_count:
  "receiver_iteration cfg sender_name buffer_base_addr st = Returned st'
     \<Longrightarrow> transfers_received st' = Suc (transfers_received st)"
proof -
  assume a: "receiver_iteration cfg sender_name buffer_base_addr st = Returned st'"
  let ?off = "buffer_base_addr
      + transfers_received st mod NUM_BUFFERS cfg * BUFFER_ENTRY_SIZE cfg"
  from a obtain seq st1
    where p: "poll_header ?off (remote_writes st) st = Returned (seq, st1)"
    by (auto simp add: receiver_iteration_def Let_def split: if_splits outcome.splits)
  from a p have "transfers_received st' = Suc (transfers_received st1)"
    by (auto simp add: receiver_iteration_def Let_def split: if_splits sum.splits)
  with poll_header_count [OF p] show ?thesis by simp
qed

function receiver_loop ::
  "config \<Rightarrow> string \<Rightarrow> nat \<Rightarrow> receiver_state \<Rightarrow> (receiver_state, receiver_state) outcome" where
  "receiver_loop cfg sender_name buffer_base_addr st =
     (if transfers_received st < NUM_TRANSFERS cfg then
        (case receiver_iteration cfg sender_name buffer_base_addr st of
           Pending s \<Rightarrow> Pending s
         | Raised e s \<Rightarrow> Raised e s
         | Returned st' \<Rightarrow> receiver_loop cfg sender_name buffer_base_addr st')
      else Returned st)"
  by pat_completeness auto
termination
  by (relation "measure (\<lambda>(cfg, sender_name, buffer_base_addr, st).
        NUM_TRANSFERS cfg - transfers_received st)")
     (auto dest: receiver_iteration_count)

declare receiver_loop.simps [simp del]

text \<open>
  The receiver from its allocation at \<open>memory_addr\<close> to the end of the main loop: the
  headers are initialised, the counters start at 0.
\<close>

definition receiver_start :: "nat \<Rightarrow> memory \<Rightarrow> (nat \<times> 64 word) list list \<Rightarrow> receiver_state" where
  "receiver_start memory_addr m writes =
     \<lparr>trace = [], local_mem = m, transfers_received = 0, progress_updates_sent = 0,
      sequence_mismatches = 0, remote_writes = writes\<rparr>"

definition receiver_main ::
  "config \<Rightarrow> string \<Rightarrow> nat \<Rightarrow> memory \<Rightarrow> (nat \<times> 64 word) list list
     \<Rightarrow> (receiver_state, receiver_state) outcome" where
  "receiver_main cfg sender_name memory_addr m writes =
     (let buffer_base_addr = memory_addr + BUFFER_BASE_OFFSET in
      case init_headers cfg buffer_base_addr [0..<NUM_BUFFERS cfg] m of
        Inl e \<Rightarrow> Raised e (receiver_start memory_addr m writes)
      | Inr m' \<Rightarrow>
          receiver_loop cfg sender_name buffer_base_addr (receiver_start memory_addr m' writes))"

text \<open>The notifications in a trace, in the order sent.\<close>

fun is_send :: "event \<Rightarrow> bool" where
  "is_send (SendNotif peer msg) = True"
| "is_send e = False"

fun is_read :: "event \<Rightarrow> bool" where
  "is_read (ReadHeader addr v) = True"
| "is_read e = False"

fun returned :: "('s, 'a) outcome \<Rightarrow> bool" where
  "returned (Returned a) = True"
| "returned out = False"

text \<open>A small ring for concrete runs: two slots, two transfers, progress after every transfer.\<close>

definition small_config :: config where
  "small_config =
     \<lparr>NUM_BUFFERS = 2, BUFFER_SIZE = 16, NUM_TRANSFERS = 2,
      PROGRESS_UPDATE_INTERVAL = max 1 (2 div 4), BACKPRESSURE_THRESHOLD = 2 - 4\<rparr>"

section \<open>The producer: sender\_process\<close>

text \<open>
  The sender's counters, and the answers it will still get: the drains of
  \<open>get_new_notifs()\<close>, the results of \<open>check_xfer_state\<close> and the results of
  \<open>transfer\<close>, in call order. The transfer handle of slot \<open>i\<close> is named by \<open>i\<close>.
\<close>

record sender_state = process +
  transfers_sent :: nat
  receiver_progress :: int
  backpressure_checks :: nat
  backpressure_waits :: nat
  max_ahead :: int
  pending_notifs :: "notifs list"
  pending_polls :: "poll_outcome list"
  pending_xfers :: "xfer_state list"

text \<open>
  The scan of one drain for progress messages, the same at both places it occurs
  (lines 355-359 and 400-404):
  \<^verbatim>\<open>for msg in notifs[receiver_name]:
    if msg.startswith(b"P:"):
        progress = int(msg[2:])
        if progress > receiver_progress:
            receiver_progress = progress\<close>
  The builtin \<open>int\<close> is the parameter \<open>py_int\<close>; \<open>None\<close> is its \<open>ValueError\<close>, which
  nothing catches.
\<close>

fun apply_progress ::
  "(string \<Rightarrow> int option) \<Rightarrow> string list \<Rightarrow> sender_state \<Rightarrow> (sender_state, sender_state) outcome" where
  "apply_progress py_int [] st = Returned st"
| "apply_progress py_int (msg # msgs) st =
     (if take 2 msg = ''P:'' then
        (case py_int (drop 2 msg) of
           None \<Rightarrow> Raised ValueError st
         | Some progress \<Rightarrow>
             if progress > receiver_progress st
             then apply_progress py_int msgs
                    (st\<lparr>receiver_progress := progress,
                        trace := trace st @ [SetProgress progress]\<rparr>)
             else apply_progress py_int msgs st)
      else apply_progress py_int msgs st)"

text \<open>\<open>if receiver_name in notifs: ...\<close>\<close>

definition drain_progress ::
  "(string \<Rightarrow> int option) \<Rightarrow> string \<Rightarrow> notifs \<Rightarrow> sender_state
     \<Rightarrow> (sender_state, sender_state) outcome" where
  "drain_progress py_int receiver_name n st =
     (case n receiver_name of
        None \<Rightarrow> Returned st
      | Some msgs \<Rightarrow> apply_progress py_int msgs st)"

text \<open>
  Lines 352-363, entered with \<open>ahead_count >= BACKPRESSURE_THRESHOLD\<close>:
  \<^verbatim>\<open>while ahead_count >= BACKPRESSURE_THRESHOLD:
    notifs = sender_agent.get_new_notifs()
    ...
    ahead_count = transfers_sent - receiver_progress
    if ahead_count >= BACKPRESSURE_THRESHOLD:
        backpressure_waits += 1
        time.sleep(0.0001)\<close>
\<close>

fun backpressure_wait ::
  "(string \<Rightarrow> int option) \<Rightarrow> config \<Rightarrow> string \<Rightarrow> notifs list \<Rightarrow> sender_state
     \<Rightarrow> (sender_state, sender_state) outcome" where
  "backpressure_wait py_int cfg receiver_name [] st = Pending (st\<lparr>pending_notifs := []\<rparr>)"
| "backpressure_wait py_int cfg receiver_name (n # ns) st =
     (case drain_progress py_int receiver_name n (st\<lparr>pending_notifs := ns\<rparr>) of
        Pending s \<Rightarrow> Pending s
      | Raised e s \<Rightarrow> Raised e s
      | Returned st1 \<Rightarrow>
          let ahead_count = int (transfers_sent st1) - receiver_progress st1;
              st2 = st1\<lparr>trace := trace st1 @ [AheadCount ahead_count]\<rparr>
          in if ahead_count \<ge> BACKPRESSURE_THRESHOLD cfg
             then backpressure_wait py_int cfg receiver_name ns
                    (st2\<lparr>backpressure_waits := backpressure_waits st2 + 1,
                         trace := trace st2 @ [Sleep (1 / 10000)]\<rparr>)
             else Returned st2)"

text \<open>Lines 346-363: the backpressure check at the top of the loop body.\<close>

definition backpressure_check ::
  "(string \<Rightarrow> int option) \<Rightarrow> config \<Rightarrow> string \<Rightarrow> sender_state
     \<Rightarrow> (sender_state, sender_state) outcome" where
  "backpressure_check py_int cfg receiver_name st =
     (let ahead_count = int (transfers_sent st) - receiver_progress st;
          st0 = st\<lparr>trace := trace st @ [AheadCount ahead_count]\<rparr>;
          st1 = (if ahead_count > max_ahead st0 then st0\<lparr>max_ahead := ahead_count\<rparr> else st0)
      in if ahead_count \<ge> BACKPRESSURE_THRESHOLD cfg
         then backpressure_wait py_int cfg receiver_name (pending_notifs st1)
                (st1\<lparr>backpressure_checks := backpressure_checks st1 + 1\<rparr>)
         else Returned st1)"

text \<open>
  The wait on a slot's handle (lines 368-372 and 414-418); an exception ends it.
  \<^verbatim>\<open>try:
    while sender_agent.check_xfer_state(handle) == "PROC":
        pass
except Exception:
    pass\<close>
\<close>

fun wait_xfer :: "nat \<Rightarrow> poll_outcome list \<Rightarrow> sender_state \<Rightarrow> (sender_state, sender_state) outcome" where
  "wait_xfer slot [] st = Pending (st\<lparr>pending_polls := []\<rparr>)"
| "wait_xfer slot (p # ps) st =
     (let st1 = st\<lparr>pending_polls := ps, trace := trace st @ [CheckXferState slot p]\<rparr>
      in if p = Polled PROC then wait_xfer slot ps st1 else Returned st1)"

datatype loop_ctl = Continue | Break

text \<open>
  Lines 385-404: the transfer is issued for the header just written; \<open>ERR\<close> breaks out of
  the loop before \<open>transfers_sent\<close> is incremented; every
  \<open>PROGRESS_UPDATE_INTERVAL\<close>-th transfer is followed by one drain.
\<close>

definition issue_transfer ::
  "(string \<Rightarrow> int option) \<Rightarrow> config \<Rightarrow> string \<Rightarrow> nat \<Rightarrow> sender_state
     \<Rightarrow> (sender_state, loop_ctl \<times> sender_state) outcome" where
  "issue_transfer py_int cfg receiver_name buffer_idx st =
     (case pending_xfers st of
        [] \<Rightarrow> Pending st
      | state # xs \<Rightarrow>
          let st1 = st\<lparr>pending_xfers := xs,
                        trace := trace st @ [Transfer (transfers_sent st) buffer_idx state]\<rparr>
          in if state = ERR then Returned (Break, st1)
             else
               let st2 = st1\<lparr>transfers_sent := transfers_sent st1 + 1\<rparr>
               in if PROGRESS_UPDATE_INTERVAL cfg = 0 then Raised ZeroDivisionError st2
                  else if transfers_sent st2 mod PROGRESS_UPDATE_INTERVAL cfg = 0 then
                    (case pending_notifs st2 of
                       [] \<Rightarrow> Pending st2
                     | n # ns \<Rightarrow>
                         (case drain_progress py_int receiver_name n (st2\<lparr>pending_notifs := ns\<rparr>) of
                            Pending s \<Rightarrow> Pending s
                          | Raised e s \<Rightarrow> Raised e s
                          | Returned st3 \<Rightarrow> Returned (Continue, st3)))
                  else Returned (Continue, st2))"

text \<open>One pass through the body of \<open>while transfers_sent < NUM_TRANSFERS\<close> (lines 341-404).\<close>

definition sender_iteration ::
  "(string \<Rightarrow> int option) \<Rightarrow> config \<Rightarrow> string \<Rightarrow> nat \<Rightarrow> sender_state
     \<Rightarrow> (sender_state, loop_ctl \<times> sender_state) outcome" where
  "sender_iteration py_int cfg receiver_name buffers_addr st =
     (if NUM_BUFFERS cfg = 0 then Raised ZeroDivisionError st
      else
        let buffer_idx = transfers_sent st mod NUM_BUFFERS cfg
        in case backpressure_check py_int cfg receiver_name st of
             Pending s \<Rightarrow> Pending s
           | Raised e s \<Rightarrow> Raised e s
           | Returned st1 \<Rightarrow>
               (case wait_xfer buffer_idx (pending_polls st1) st1 of
                  Pending s \<Rightarrow> Pending s
                | Raised e s \<Rightarrow> Raised e s
                | Returned st2 \<Rightarrow>
                    let buffer_offset = buffers_addr + buffer_idx * BUFFER_SIZE cfg
                    in case write_uint64 buffer_offset (int (transfers_sent st2)) (local_mem st2) of
                         Inl e \<Rightarrow> Raised e st2
                       | Inr m \<Rightarrow>
                           issue_transfer py_int cfg receiver_name buffer_idx
                             (st2\<lparr>local_mem := m,
                                  trace := trace st2 @
                                    [WriteHeader buffer_offset (int (transfers_sent st2))]\<rparr>)))"

lemma apply_progress_count:
  "transfers_sent (reached (apply_progress py_int msgs st)) = transfers_sent st"
  by (induction msgs arbitrary: st) (simp_all split: option.splits)

lemma drain_progress_count:
  "transfers_sent (reached (drain_progress py_int receiver_name n st)) = transfers_sent st"
  by (simp add: drain_progress_def apply_progress_count split: option.splits)

lemma backpressure_wait_count:
  "transfers_sent (reached (backpressure_wait py_int cfg receiver_name ns st)) = transfers_sent st"
proof (induction ns arbitrary: st)
  case Nil
  then show ?case by simp
next
  case (Cons n ns)
  from drain_progress_count [of py_int receiver_name n "st\<lparr>pending_notifs := ns\<rparr>"] Cons.IH
  show ?case
    by (cases "drain_progress py_int receiver_name n (st\<lparr>pending_notifs := ns\<rparr>)")
       (simp_all add: Let_def)
qed

lemma backpressure_check_count:
  "transfers_sent (reached (backpressure_check py_int cfg receiver_name st)) = transfers_sent st"
  by (simp add: backpressure_check_def Let_def backpressure_wait_count)

lemma wait_xfer_count:
  "transfers_sent (reached (wait_xfer slot ps st)) = transfers_sent st"
  by (induction ps arbitrary: st) (simp_all add: Let_def)

lemma issue_transfer_count:
  assumes "issue_transfer py_int cfg receiver_name buffer_idx st = Returned (Continue, st')"
  shows "transfers_sent st' = Suc (transfers_sent st)"
proof (cases "pending_xfers st")
  case Nil
  with assms show ?thesis by (simp add: issue_transfer_def)
next
  case (Cons state xs)
  let ?st2 = "st\<lparr>pending_xfers := xs,
      trace := trace st @ [Transfer (transfers_sent st) buffer_idx state],
      transfers_sent := transfers_sent st + 1\<rparr>"
  show ?thesis
  proof (cases "transfers_sent ?st2 mod PROGRESS_UPDATE_INTERVAL cfg = 0")
    case False
    with assms Cons show ?thesis
      by (auto simp add: issue_transfer_def Let_def split: if_splits)
  next
    case True
    with assms Cons obtain n ns where ns: "pending_notifs st = n # ns"
      and d: "drain_progress py_int receiver_name n (?st2\<lparr>pending_notifs := ns\<rparr>) = Returned st'"
      by (auto simp add: issue_transfer_def Let_def split: if_splits list.splits outcome.splits)
    from drain_progress_count [of py_int receiver_name n "?st2\<lparr>pending_notifs := ns\<rparr>"] d
    show ?thesis by simp
  qed
qed

lemma sender_iteration_count:
  assumes "sender_iteration py_int cfg receiver_name buffers_addr st = Returned (Continue, st')"
  shows "transfers_sent st' = Suc (transfers_sent st)"
proof -
  let ?idx = "transfers_sent st mod NUM_BUFFERS cfg"
  from assms obtain st1 where
    b: "backpressure_check py_int cfg receiver_name st = Returned st1"
    by (auto simp add: sender_iteration_def Let_def split: if_splits outcome.splits)
  with assms obtain st2 where
    w: "wait_xfer ?idx (pending_polls st1) st1 = Returned st2"
    by (auto simp add: sender_iteration_def Let_def split: if_splits outcome.splits)
  with assms b obtain st3 where
    i: "issue_transfer py_int cfg receiver_name ?idx st3 = Returned (Continue, st')"
    and c: "transfers_sent st3 = transfers_sent st2"
    by (auto simp add: sender_iteration_def Let_def split: if_splits sum.splits)
  from backpressure_check_count [of py_int cfg receiver_name st] b
  have "transfers_sent st1 = transfers_sent st" by simp
  moreover from wait_xfer_count [of ?idx "pending_polls st1" st1] w
  have "transfers_sent st2 = transfers_sent st1" by simp
  ultimately show ?thesis
    using issue_transfer_count [OF i] c by simp
qed

function sender_loop ::
  "(string \<Rightarrow> int option) \<Rightarrow> config \<Rightarrow> string \<Rightarrow> nat \<Rightarrow> sender_state
     \<Rightarrow> (sender_state, sender_state) outcome" where
  "sender_loop py_int cfg receiver_name buffers_addr st =
     (if transfers_sent st < NUM_TRANSFERS cfg then
        (case sender_iteration py_int cfg receiver_name buffers_addr st of
           Pending s \<Rightarrow> Pending s
         | Raised e s \<Rightarrow> Raised e s
         | Returned (Break, st') \<Rightarrow> Returned st'
         | Returned (Continue, st') \<Rightarrow> sender_loop py_int cfg receiver_name buffers_addr st')
      else Returned st)"
  by pat_completeness auto
termination
  by (relation "measure (\<lambda>(py_int, cfg, receiver_name, buffers_addr, st).
        NUM_TRANSFERS cfg - transfers_sent st)")
     (auto dest: sender_iteration_count)

declare sender_loop.simps [simp del]

text \<open>
  Lines 413-418: the shutdown drain over every slot's handle.
  \<^verbatim>\<open>for i in range(NUM_BUFFERS): ...\<close>
\<close>

fun drain_xfers :: "nat list \<Rightarrow> sender_state \<Rightarrow> (sender_state, sender_state) outcome" where
  "drain_xfers [] st = Returned st"
| "drain_xfers (i # is) st =
     (case wait_xfer i (pending_polls st) st of
        Pending s \<Rightarrow> Pending s
      | Raised e s \<Rightarrow> Raised e s
      | Returned st1 \<Rightarrow> drain_xfers is st1)"

text \<open>Lines 451-456: the handles are released and the memory is given back.\<close>

definition cleanup_events :: "config \<Rightarrow> event list" where
  "cleanup_events cfg =
     map ReleaseXferHandle [0..<NUM_BUFFERS cfg] @
     [ReleaseDlistHandle ''local_buffers_prep'', ReleaseDlistHandle ''remote_buffers_prep'',
      DeregisterMemory, FreePassthru]"

definition sender_start ::
  "memory \<Rightarrow> notifs list \<Rightarrow> poll_outcome list \<Rightarrow> xfer_state list \<Rightarrow> sender_state" where
  "sender_start m notifs polls xfers =
     \<lparr>trace = [], local_mem = m, transfers_sent = 0, receiver_progress = 0,
      backpressure_checks = 0, backpressure_waits = 0, max_ahead = 0,
      pending_notifs = notifs, pending_polls = polls, pending_xfers = xfers\<rparr>"

text \<open>The sender from the start of its main loop to the end of the cleanup.\<close>

definition sender_main ::
  "(string \<Rightarrow> int option) \<Rightarrow> config \<Rightarrow> string \<Rightarrow> nat \<Rightarrow> memory \<Rightarrow> notifs list
     \<Rightarrow> poll_outcome list \<Rightarrow> xfer_state list \<Rightarrow> (sender_state, sender_state) outcome" where
  "sender_main py_int cfg receiver_name buffers_addr m notifs polls xfers =
     (case sender_loop py_int cfg receiver_name buffers_addr (sender_start m notifs polls xfers) of
        Pending s \<Rightarrow> Pending s
      | Raised e s \<Rightarrow> Raised e s
      | Returned st1 \<Rightarrow>
          (case drain_xfers [0..<NUM_BUFFERS cfg] st1 of
             Pending s \<Rightarrow> Pending s
           | Raised e s \<Rightarrow> Raised e s
           | Returned st2 \<Rightarrow> Returned (st2\<lparr>trace := trace st2 @ cleanup_events cfg\<rparr>)))"

section \<open>Reading a sender trace\<close>

text \<open>The values assigned to \<open>receiver_progress\<close>, in order.\<close>

fun progress_values :: "event list \<Rightarrow> int list" where
  "progress_values [] = []"
| "progress_values (SetProgress p # es) = p # progress_values es"
| "progress_values (e # es) = progress_values es"

text \<open>
  The value of \<open>receiver_progress\<close> after a trace: the last value assigned, or the
  initial 0.
\<close>

definition progress_at :: "event list \<Rightarrow> int" where
  "progress_at es = last (0 # progress_values es)"

text \<open>
  Every transfer in the trace was issued less than \<open>K\<close> ahead of the progress known at
  that moment, \<open>rp\<close> being the progress known before the trace.
\<close>

fun gated :: "int \<Rightarrow> int \<Rightarrow> event list \<Rightarrow> bool" where
  "gated K rp [] = True"
| "gated K rp (SetProgress p # es) = gated K p es"
| "gated K rp (Transfer i slot r # es) = (int i - rp < K \<and> gated K rp es)"
| "gated K rp (e # es) = gated K rp es"

fun is_failed_transfer :: "event \<Rightarrow> bool" where
  "is_failed_transfer (Transfer i slot r) = (r = ERR)"
| "is_failed_transfer e = False"

fun is_transfer :: "event \<Rightarrow> bool" where
  "is_transfer (Transfer i slot r) = True"
| "is_transfer e = False"

fun is_release :: "event \<Rightarrow> bool" where
  "is_release (ReleaseXferHandle i) = True"
| "is_release (ReleaseDlistHandle h) = True"
| "is_release DeregisterMemory = True"
| "is_release FreePassthru = True"
| "is_release e = False"


text \<open>
  The invariants of the sender's state: \<open>receiver_progress\<close> has only ever been replaced
  by a larger value and is the last value assigned; every transfer passed the gate; and
  the sender is, and \<open>ahead_count\<close> has always been, at most \<open>max 0 K\<close>.
\<close>

text \<open>The values assigned to \<open>ahead_count\<close>, in order.\<close>

fun ahead_values :: "event list \<Rightarrow> int list" where
  "ahead_values [] = []"
| "ahead_values (AheadCount a # es) = a # ahead_values es"
| "ahead_values (e # es) = ahead_values es"

definition progress_inv :: "sender_state \<Rightarrow> bool" where
  "progress_inv st =
     (sorted_wrt (<) (0 # progress_values (trace st))
      \<and> receiver_progress st = progress_at (trace st))"

definition gate_inv :: "config \<Rightarrow> sender_state \<Rightarrow> bool" where
  "gate_inv cfg st =
     (progress_inv st
      \<and> gated (BACKPRESSURE_THRESHOLD cfg) 0 (trace st)
      \<and> int (transfers_sent st) - receiver_progress st \<le> max 0 (BACKPRESSURE_THRESHOLD cfg)
      \<and> max_ahead st \<le> max 0 (BACKPRESSURE_THRESHOLD cfg)
      \<and> list_all (\<lambda>a. a \<le> max 0 (BACKPRESSURE_THRESHOLD cfg)) (ahead_values (trace st)))"

text \<open>A trace without a failed transfer and without a release.\<close>

definition no_fault :: "event list \<Rightarrow> bool" where
  "no_fault es = (filter (\<lambda>e. is_failed_transfer e \<or> is_release e) es = [])"

section \<open>Concrete runs of the sender\<close>

text \<open>
  A reading of \<open>int()\<close> on the payloads that the receiver sends: an optional sign and
  decimal digits, \<open>ValueError\<close> on anything else. It is used for the concrete runs only;
  the properties of the sender hold for every \<open>py_int\<close>.
\<close>

fun digits_value :: "string \<Rightarrow> nat \<Rightarrow> nat option" where
  "digits_value [] acc = Some acc"
| "digits_value (c # cs) acc =
     (if c \<in> set ''0123456789'' then digits_value cs (acc * 10 + (of_char c - 48)) else None)"

definition decimal_int :: "string \<Rightarrow> int option" where
  "decimal_int s =
     (case s of
        [] \<Rightarrow> None
      | c # cs \<Rightarrow>
          if c = CHR ''-'' then (if cs = [] then None else map_option (\<lambda>n. - int n) (digits_value cs 0))
          else if c = CHR ''+'' then (if cs = [] then None else map_option int (digits_value cs 0))
          else map_option int (digits_value s 0))"

text \<open>
  A ring of six slots with \<open>K = N - 4 = 2\<close> and \<open>P = max(1, N // 4) = 1\<close>: the
  constants that the module computes when its \<open>NUM_BUFFERS\<close> is 6.
\<close>

definition six_config :: config where
  "six_config =
     \<lparr>NUM_BUFFERS = 6, BUFFER_SIZE = 16, NUM_TRANSFERS = 4,
      PROGRESS_UPDATE_INTERVAL = max 1 (6 div 4), BACKPRESSURE_THRESHOLD = 6 - 4\<rparr>"

text \<open>
  The answers of a run of four transfers in which the receiver's progress arrives late,
  and of a run whose second transfer fails.
\<close>

definition late_progress_notifs :: "notifs list" where
  "late_progress_notifs =
     [Map.empty, [''receiver'' \<mapsto> [''P:1'']], Map.empty,
      [''receiver'' \<mapsto> [''P:3'', ''P:2'']], Map.empty]"

definition late_progress_polls :: "poll_outcome list" where
  "late_progress_polls =
     [PollRaised, PollRaised, PollRaised, PollRaised,
      Polled PROC, Polled DONE, Polled DONE, Polled DONE, Polled DONE, PollRaised, PollRaised]"

definition failed_transfer_polls :: "poll_outcome list" where
  "failed_transfer_polls =
     [PollRaised, PollRaised,
      Polled PROC, Polled DONE, Polled ERR, PollRaised, PollRaised, PollRaised, PollRaised]"


chapter \<open>Properties\<close>

section \<open>Memory helpers\<close>

lemma uint64_bytes_numeral:
  "uint64_bytes (numeral k) w = ucast w # uint64_bytes (pred_numeral k) (drop_bit 8 w)"
  by (simp add: numeral_eq_Suc)

lemma load_bytes_numeral:
  "load_bytes addr (numeral k) mem = mem addr # load_bytes (addr + 1) (pred_numeral k) mem"
  by (simp add: numeral_eq_Suc)

lemmas memory_eval =
  uint64_bytes_numeral load_bytes_numeral store_uint64_def load_uint64_def
  write_uint64_def read_uint64_def SENTINEL_def

lemma byte_step:
  "ucast (ucast w :: 8 word) OR push_bit 8 (take_bit k (drop_bit 8 w))
     = take_bit (8 + k) (w :: 64 word)"
proof (rule bit_word_eqI)
  fix n assume n: "n < LENGTH(64)"
  show "bit (ucast (ucast w :: 8 word) OR push_bit 8 (take_bit k (drop_bit 8 w))) n
      = bit (take_bit (8 + k) w) n"
  proof (cases "n < 8")
    case True
    then show ?thesis by (simp add: bit_simps)
  next
    case False
    then have "8 + (n - 8) = n" by simp
    with False n show ?thesis by (auto simp add: bit_simps)
  qed
qed

lemma bytes_uint64_bytes: "bytes_uint64 (uint64_bytes n w) = take_bit (8 * n) w"
  by (induction n arbitrary: w) (simp_all add: byte_step)

lemma length_uint64_bytes: "length (uint64_bytes n w) = n"
  by (induction n arbitrary: w) auto

lemma store_bytes_below: "x < a \<Longrightarrow> store_bytes a bs m x = m x"
  by (induction bs arbitrary: a m) auto

lemma store_bytes_above: "a + length bs \<le> x \<Longrightarrow> store_bytes a bs m x = m x"
  by (induction bs arbitrary: a m) auto

lemma load_store_bytes: "load_bytes a (length bs) (store_bytes a bs m) = bs"
  by (induction bs arbitrary: a m) (simp_all add: store_bytes_below)

lemma load_bytes_cong:
  "(\<And>x. a \<le> x \<Longrightarrow> x < a + n \<Longrightarrow> m x = m' x) \<Longrightarrow> load_bytes a n m = load_bytes a n m'"
  by (induction n arbitrary: a) auto

lemma load_store_uint64: "load_uint64 a (store_uint64 a w m) = w"
  using load_store_bytes [of a "uint64_bytes 8 w" m] bytes_uint64_bytes [of 8 w]
  by (simp add: load_uint64_def store_uint64_def length_uint64_bytes take_bit_word_eq_self)

lemma load_store_uint64_other:
  assumes "a' + 8 \<le> a \<or> a + 8 \<le> a'"
  shows "load_uint64 a' (store_uint64 a w m) = load_uint64 a' m"
proof -
  have "load_bytes a' 8 (store_bytes a (uint64_bytes 8 w) m) = load_bytes a' 8 m"
    using assms
    by (intro load_bytes_cong) (auto simp add: store_bytes_below store_bytes_above
        length_uint64_bytes)
  then show ?thesis by (simp add: load_uint64_def store_uint64_def)
qed

lemma read_write_uint64:
  assumes "0 \<le> v" and "v < 2 ^ 64"
  shows "\<exists>m'. write_uint64 a v m = Inr m' \<and> read_uint64 a m' = v"
proof -
  have "uint (word_of_int v :: 64 word) = v"
    using assms by (simp add: uint_word_of_int take_bit_int_eq_self)
  with assms show ?thesis
    by (simp add: write_uint64_def read_uint64_def load_store_uint64)
qed

text \<open>
  C10. Writing a value \<open>v\<close> with \<open>0 \<le> v < 2^64\<close> succeeds, and reading the same
  address afterwards returns exactly \<open>v\<close>. The sentinel is \<open>2^64 - 1\<close> and round-trips,
  and a header written with a sequence number \<open>i\<close> in \<open>[0, T)\<close>, \<open>T \<le> 2^64 - 1\<close>,
  never reads back as the sentinel.
\<close>

theorem write_read_uint64_roundtrip:
  "(0 \<le> v \<and> v < 2 ^ 64 \<longrightarrow>
      (\<exists>m'. write_uint64 a v m = Inr m' \<and> read_uint64 a m' = v))
   \<and> SENTINEL = 2 ^ 64 - 1
   \<and> (\<exists>m'. write_uint64 a SENTINEL m = Inr m' \<and> read_uint64 a m' = SENTINEL)
   \<and> (0 \<le> i \<and> i < T \<and> T \<le> 2 ^ 64 - 1 \<longrightarrow>
      (\<exists>m'. write_uint64 a i m = Inr m' \<and> read_uint64 a m' = i \<and> read_uint64 a m' \<noteq> SENTINEL))"
proof (intro conjI impI)
  assume "0 \<le> v \<and> v < 2 ^ 64"
  then show "\<exists>m'. write_uint64 a v m = Inr m' \<and> read_uint64 a m' = v"
    using read_write_uint64 by blast
next
  show "SENTINEL = 2 ^ 64 - 1" by (simp add: SENTINEL_def)
next
  show "\<exists>m'. write_uint64 a SENTINEL m = Inr m' \<and> read_uint64 a m' = SENTINEL"
    by (rule read_write_uint64) (simp_all add: SENTINEL_def)
next
  assume h: "0 \<le> i \<and> i < T \<and> T \<le> 2 ^ 64 - 1"
  then have "0 \<le> i" and "i < 2 ^ 64" and ne: "i \<noteq> SENTINEL"
    by (simp_all add: SENTINEL_def)
  from read_write_uint64 [OF this(1,2)] obtain m'
    where "write_uint64 a i m = Inr m'" and "read_uint64 a m' = i" by blast
  with ne show "\<exists>m'. write_uint64 a i m = Inr m' \<and> read_uint64 a m' = i
      \<and> read_uint64 a m' \<noteq> SENTINEL"
    by simp
qed

theorem write_read_uint64_roundtrip_witness:
  "(0 \<le> (999::int) \<and> (999::int) < 2 ^ 64) \<and> (0 \<le> (999::int) \<and> (999::int) < 1000 \<and> (1000::int) \<le> 2 ^ 64 - 1)
   \<and> (\<exists>m'. write_uint64 4096 999 (\<lambda>_. 0) = Inr m' \<and> read_uint64 4096 m' = 999
          \<and> read_uint64 4096 m' \<noteq> SENTINEL)"
  using write_read_uint64_roundtrip [of 999 4096 "\<lambda>_. 0" 999 1000] by simp

section \<open>The metadata server\<close>

lemma handle_SET: "handle (SET k v) md = (StatusOK, md(KStr k \<mapsto> v))"
  by (simp add: SET_def obj_get_def)

lemma handle_GET:
  "handle (GET k) md =
     (case md (KStr k) of
        None \<Rightarrow> (StatusError (KeyNotFound (JStr k)), md)
      | Some v \<Rightarrow> if v \<noteq> JNull then (StatusOKValue v, md)
                 else (StatusError (KeyNotFound (JStr k)), md))"
  by (simp add: GET_def obj_get_def split: option.splits)

lemma get_metadata_lookup:
  "get_metadata k md = (case md (KStr k) of None \<Rightarrow> JNull | Some v \<Rightarrow> v)"
  using handle_GET [of k md] by (simp add: get_metadata_def GET_def split: option.splits)

text \<open>
  C9. For distinct string keys \<open>k1\<close> and \<open>k2\<close>, \<open>SET(k1, v)\<close> leaves the binding of
  \<open>k2\<close> as it was, \<open>GET(k2)\<close> answers afterwards exactly what it answered before (so it
  returns \<open>v\<close> only if \<open>k2\<close> already held \<open>v\<close>), and \<open>GET\<close> changes nothing. The store
  keeps one value per key: after \<open>SET(k1, v)\<close> and \<open>SET(k2, v')\<close>, both are retrievable.
\<close>

theorem distinct_keys_do_not_interfere:
  assumes "k1 \<noteq> k2"
  shows "snd (handle (SET k1 v) md) (KStr k2) = md (KStr k2)
    \<and> fst (handle (GET k2) (snd (handle (SET k1 v) md))) = fst (handle (GET k2) md)
    \<and> (fst (handle (GET k2) md) \<noteq> StatusOKValue v
           \<longrightarrow> fst (handle (GET k2) (snd (handle (SET k1 v) md))) \<noteq> StatusOKValue v)
    \<and> snd (handle (GET k2) md) = md
    \<and> get_metadata k2 (snd (set_metadata k1 v md)) = get_metadata k2 md
    \<and> (v \<noteq> JNull \<and> v' \<noteq> JNull \<longrightarrow>
           fst (handle (GET k1) (snd (handle (SET k2 v') (snd (handle (SET k1 v) md)))))
             = StatusOKValue v
         \<and> fst (handle (GET k2) (snd (handle (SET k2 v') (snd (handle (SET k1 v) md)))))
             = StatusOKValue v')"
proof (intro conjI impI)
  show "snd (handle (SET k1 v) md) (KStr k2) = md (KStr k2)"
    using assms by (simp add: handle_SET)
  show g: "fst (handle (GET k2) (snd (handle (SET k1 v) md))) = fst (handle (GET k2) md)"
    using assms by (simp add: handle_SET handle_GET split: option.splits)
  show "fst (handle (GET k2) (snd (handle (SET k1 v) md))) \<noteq> StatusOKValue v"
    if "fst (handle (GET k2) md) \<noteq> StatusOKValue v"
    using that g by simp
  show "snd (handle (GET k2) md) = md"
    by (simp add: handle_GET split: option.splits)
  show "get_metadata k2 (snd (set_metadata k1 v md)) = get_metadata k2 md"
    using assms handle_SET [of k1 v md]
    by (simp add: get_metadata_lookup set_metadata_def SET_def)
  show "fst (handle (GET k1) (snd (handle (SET k2 v') (snd (handle (SET k1 v) md)))))
             = StatusOKValue v"
    if "v \<noteq> JNull \<and> v' \<noteq> JNull"
    using that assms by (simp add: handle_SET handle_GET)
  show "fst (handle (GET k2) (snd (handle (SET k2 v') (snd (handle (SET k1 v) md)))))
             = StatusOKValue v'"
    if "v \<noteq> JNull \<and> v' \<noteq> JNull"
    using that assms by (simp add: handle_SET handle_GET)
qed

theorem distinct_keys_do_not_interfere_witness:
  "''receiver_metadata'' \<noteq> ''sender_metadata''
   \<and> JStr ''cmVjdg=='' \<noteq> JNull \<and> JStr ''c25kcg=='' \<noteq> JNull
   \<and> fst (handle (GET ''sender_metadata'') Map.empty) \<noteq> StatusOKValue (JStr ''cmVjdg=='')
   \<and> fst (handle (GET ''sender_metadata'')
        (snd (handle (SET ''receiver_metadata'' (JStr ''cmVjdg=='')) Map.empty)))
       = StatusError (KeyNotFound (JStr ''sender_metadata''))
   \<and> fst (handle (GET ''receiver_metadata'')
        (snd (handle (SET ''sender_metadata'' (JStr ''c25kcg==''))
          (snd (handle (SET ''receiver_metadata'' (JStr ''cmVjdg=='')) Map.empty)))))
       = StatusOKValue (JStr ''cmVjdg=='')"
  using distinct_keys_do_not_interfere
      [of "''receiver_metadata''" "''sender_metadata''" "JStr ''cmVjdg==''" Map.empty
        "JStr ''c25kcg==''"]
  by (simp add: handle_GET)

section \<open>The descriptor handshake\<close>

subsection \<open>The side that holds the descriptors\<close>

lemma wait_for_ready_char:
  "wait_for_ready peer ns evs =
     (let k = length (takeWhile (\<lambda>n. \<not> ready_in peer n) ns);
          retries = concat (replicate k [SendNotif peer ''READY'', Sleep (1 / 100)])
      in if k < length ns then Returned (evs @ retries @ [SendNotif peer ''READY''])
         else Pending (evs @ retries @ [SendNotif peer ''READY'']))"
  by (induction ns arbitrary: evs) (simp_all add: Let_def)

lemma no_descs_in_retries:
  "filter is_descs_send (concat (replicate k [SendNotif peer ''READY'', Sleep d])) = []"
  by (induction k) (simp_all add: is_descs_def)

lemma takeWhile_stops:
  assumes "length (takeWhile P xs) < length xs"
  shows "\<not> P (xs ! length (takeWhile P xs))"
  using assms by (simp add: nth_length_takeWhile)

text \<open>
  C4. The holder's trace is determined by the drains it sees. With \<open>k\<close> the number of
  drains before the first one that holds the peer's \<open>READY\<close>, it sends \<open>READY\<close> and
  sleeps \<open>k\<close> times, sends \<open>READY\<close> once more in the iteration that observes the peer's
  \<open>READY\<close>, and then sends \<open>DESCS:<payload>\<close>; if no drain holds the peer's \<open>READY\<close>
  it is still re-sending \<open>READY\<close> when the record ends. So every returned trace has
  exactly one \<open>DESCS\<close> send, it is the last event, and a \<open>READY\<close> from the peer was
  observed. \<open>receiver_exchange\<close> and \<open>target_exchange\<close> are this exchange with the
  peers \<open>sender\<close> and \<open>initiator\<close>.
\<close>

theorem descs_sent_once_after_peer_ready:
  "send_descs peer payload drains =
     (let k = length (takeWhile (\<lambda>n. \<not> ready_in peer n) drains);
          retries = concat (replicate k [SendNotif peer ''READY'', Sleep (1 / 100)])
      in if k < length drains
         then Returned (retries @ [SendNotif peer ''READY'', SendNotif peer (''DESCS:'' @ payload)])
         else Pending (retries @ [SendNotif peer ''READY'']))
   \<and> (\<forall>evs. send_descs peer payload drains = Returned evs \<longrightarrow>
        length (filter is_descs_send evs) = 1
        \<and> last evs = SendNotif peer (''DESCS:'' @ payload)
        \<and> (\<exists>n \<in> set drains. ready_in peer n))
   \<and> receiver_exchange payload drains = send_descs ''sender'' payload drains
   \<and> target_exchange payload drains = send_descs ''initiator'' payload drains"
proof -
  let ?k = "length (takeWhile (\<lambda>n. \<not> ready_in peer n) drains)"
  let ?retries = "concat (replicate ?k [SendNotif peer ''READY'', Sleep (1 / 100)])"
  have char: "send_descs peer payload drains =
      (if ?k < length drains
       then Returned (?retries @ [SendNotif peer ''READY'', SendNotif peer (''DESCS:'' @ payload)])
       else Pending (?retries @ [SendNotif peer ''READY'']))"
    by (simp add: send_descs_def wait_for_ready_char Let_def)
  have "length (filter is_descs_send evs) = 1
        \<and> last evs = SendNotif peer (''DESCS:'' @ payload)
        \<and> (\<exists>n \<in> set drains. ready_in peer n)"
    if "send_descs peer payload drains = Returned evs" for evs
  proof -
    from that char have k: "?k < length drains"
      and evs: "evs = ?retries @ [SendNotif peer ''READY'', SendNotif peer (''DESCS:'' @ payload)]"
      by (auto split: if_splits)
    from k have "ready_in peer (drains ! ?k)"
      using takeWhile_stops [of "\<lambda>n. \<not> ready_in peer n" drains] by simp
    with k have "\<exists>n \<in> set drains. ready_in peer n"
      using nth_mem by blast
    moreover have "length (filter is_descs_send evs) = 1"
      by (simp add: evs no_descs_in_retries is_descs_def)
    moreover have "last evs = SendNotif peer (''DESCS:'' @ payload)"
      by (simp add: evs)
    ultimately show ?thesis by simp
  qed
  with char show ?thesis
    by (simp add: Let_def receiver_exchange_def target_exchange_def)
qed

theorem descs_sent_once_after_peer_ready_witness:
  "receiver_exchange ''blob''
     [Map.empty, [''sender'' \<mapsto> [''hello'']], [''sender'' \<mapsto> [''READY'', ''READY'']], Map.empty]
   = Returned [SendNotif ''sender'' ''READY'', Sleep (1 / 100),
               SendNotif ''sender'' ''READY'', Sleep (1 / 100),
               SendNotif ''sender'' ''READY'', SendNotif ''sender'' ''DESCS:blob'']
   \<and> length (filter is_descs_send
        [SendNotif ''sender'' ''READY'', Sleep (1 / 100),
         SendNotif ''sender'' ''READY'', Sleep (1 / 100),
         SendNotif ''sender'' ''READY'', SendNotif ''sender'' ''DESCS:blob'']) = 1"
  using descs_sent_once_after_peer_ready [of "''sender''" "''blob''"
      "[Map.empty, [''sender'' \<mapsto> [''hello'']], [''sender'' \<mapsto> [''READY'', ''READY'']], Map.empty]"]
  by (simp add: ready_in_def is_descs_def Let_def)

subsection \<open>The side that requests the descriptors\<close>

lemma scan_descs_find:
  "scan_descs deser msgs = (case find is_descs msgs of None \<Rightarrow> None | Some m \<Rightarrow> deser (drop 6 m))"
  by (induction msgs) simp_all

lemma find_append_cases:
  "find P (xs @ ys) = (case find P xs of None \<Rightarrow> find P ys | Some x \<Rightarrow> Some x)"
  by (induction xs) simp_all

text \<open>
  What a drain yields: the deserialized suffix of its first \<open>DESCS:\<close> payload from the
  peer. The first drain that yields a value other than \<open>None\<close> ends the loop.
\<close>

lemma no_hit_prefix:
  "length (takeWhile (\<lambda>n. h n = None) ns) = length ns \<Longrightarrow> List.map_filter h ns = []"
proof (induction ns)
  case Nil
  then show ?case by (simp add: map_filter_simps)
next
  case (Cons n ns)
  then show ?case by (cases "h n") (simp_all add: map_filter_simps)
qed

lemma first_hit:
  "length (takeWhile (\<lambda>n. h n = None) ns) < length ns
     \<Longrightarrow> \<exists>d rest. h (ns ! length (takeWhile (\<lambda>n. h n = None) ns)) = Some d
           \<and> List.map_filter h ns = d # rest"
proof (induction ns)
  case Nil
  then show ?case by simp
next
  case (Cons n ns)
  then show ?case by (cases "h n") (simp_all add: map_filter_simps)
qed

lemma drop_no_hits:
  "j \<le> length (takeWhile (\<lambda>n. h n = None) ns)
     \<Longrightarrow> List.map_filter h (drop j ns) = List.map_filter h ns
       \<and> length (takeWhile (\<lambda>n. h n = None) (drop j ns))
         = length (takeWhile (\<lambda>n. h n = None) ns) - j"
proof (induction ns arbitrary: j)
  case Nil
  then show ?case by simp
next
  case (Cons n ns)
  show ?case
  proof (cases j)
    case 0
    then show ?thesis by simp
  next
    case (Suc i)
    with Cons.prems have none: "h n = None"
      and i: "i \<le> length (takeWhile (\<lambda>n. h n = None) ns)"
      by (auto split: if_splits)
    from Cons.IH [OF i] none Suc show ?thesis
      by (simp add: map_filter_simps)
  qed
qed

lemma poll_descs_char:
  "poll_descs peer deser j ns =
     (let k = length (takeWhile (\<lambda>n. scan_descs deser (peer_msgs peer n) = None) ns)
      in if k < j \<and> k < length ns then Some (scan_descs deser (peer_msgs peer (ns ! k)), drop (Suc k) ns)
         else if j \<le> length ns then Some (None, drop j ns)
         else None)"
proof (induction j arbitrary: ns)
  case 0
  then show ?case by simp
next
  case (Suc j)
  show ?case
  proof (cases ns)
    case Nil
    then show ?thesis by simp
  next
    case (Cons n ns')
    show ?thesis
    proof (cases "scan_descs deser (peer_msgs peer n)")
      case None
      with Cons Suc.IH [of ns'] show ?thesis by (simp add: Let_def)
    next
      case (Some d)
      with Cons show ?thesis by simp
    qed
  qed
qed

lemma throttled_step:
  "concat (map (\<lambda>j. ready_if peer j @ [Sleep (1 / 100)]) [rc..<rc + Suc q])
     @ ready_if peer (rc + Suc q)
   = ready_if peer rc @ [Sleep (1 / 100)]
     @ concat (map (\<lambda>j. ready_if peer j @ [Sleep (1 / 100)]) [rc + 1..<rc + 1 + q])
     @ ready_if peer (rc + 1 + q)"
proof -
  have "[rc..<rc + Suc q] = rc # [rc + 1..<rc + 1 + q]"
    by (simp add: upt_conv_Cons)
  then show ?thesis by (simp del: upt_Suc)
qed

lemma wait_for_descs_char:
  "wait_for_descs peer deser rc ns evs =
     (case List.map_filter (\<lambda>n. scan_descs deser (peer_msgs peer n)) ns of
        [] \<Rightarrow>
          Pending (evs @ concat (map (\<lambda>j. ready_if peer j @ [Sleep (1 / 100)])
                                 [rc..<rc + length ns div 3])
                     @ ready_if peer (rc + length ns div 3))
      | d # ds \<Rightarrow>
          Returned (d, evs @ concat (map (\<lambda>j. ready_if peer j @ [Sleep (1 / 100)])
              [rc..<rc + length (takeWhile
                  (\<lambda>n. scan_descs deser (peer_msgs peer n) = None) ns) div 3])
            @ ready_if peer (rc + length (takeWhile
                  (\<lambda>n. scan_descs deser (peer_msgs peer n) = None) ns) div 3)))"
proof (induction ns arbitrary: rc evs rule: length_induct)
  case (1 ns)
  let ?h = "\<lambda>n. scan_descs deser (peer_msgs peer n)"
  let ?k = "length (takeWhile (\<lambda>n. ?h n = None) ns)"
  have kle: "?k \<le> length ns" by (rule length_takeWhile_le)
  note poll = poll_descs_char [of peer deser 3 ns]
  show ?case
  proof (cases "?k < 3 \<and> ?k < length ns")
    case True
    with first_hit [of ?h ns] obtain d rest
      where d: "?h (ns ! ?k) = Some d" and mf: "List.map_filter ?h ns = d # rest"
      by blast
    from True have "?k div 3 = 0" by simp
    with True poll d mf show ?thesis
      by (subst wait_for_descs.simps) (simp add: Let_def ready_if_def)
  next
    case False
    show ?thesis
    proof (cases "3 \<le> length ns")
      case short: False
      with False kle have keq: "?k = length ns" by linarith
      then have mf: "List.map_filter ?h ns = []" by (rule no_hit_prefix)
      from short have q0: "length ns div 3 = 0" by simp
      from poll keq short have p: "poll_descs peer deser 3 ns = None"
        by (simp add: Let_def)
      show ?thesis
        by (subst wait_for_descs.simps) (simp add: p mf q0 Let_def ready_if_def)
    next
      case True
      with False kle have k3: "3 \<le> ?k" by linarith
      from poll False True have p: "poll_descs peer deser 3 ns = Some (None, drop 3 ns)"
        by (simp add: Let_def)
      from drop_no_hits [OF k3]
      have mf: "List.map_filter ?h (drop 3 ns) = List.map_filter ?h ns"
        and k': "length (takeWhile (\<lambda>n. ?h n = None) (drop 3 ns)) = ?k - 3"
        by simp_all
      from True have shorter: "length (drop 3 ns) < length ns" by simp
      have q: "length ns div 3 = Suc (length (drop 3 ns) div 3)"
        using True by (simp add: le_div_geq)
      have qk: "?k div 3 = Suc ((?k - 3) div 3)"
        using k3 by (simp add: le_div_geq)
      have step: "wait_for_descs peer deser rc ns evs =
          wait_for_descs peer deser (rc + 1) (drop 3 ns)
            ((evs @ ready_if peer rc) @ [Sleep (1 / 100)])"
        by (subst wait_for_descs.simps) (simp add: p Let_def ready_if_def)
      from "1.IH" shorter
      have ih: "wait_for_descs peer deser (rc + 1) (drop 3 ns)
            ((evs @ ready_if peer rc) @ [Sleep (1 / 100)]) =
          (case List.map_filter ?h (drop 3 ns) of
             [] \<Rightarrow>
               Pending (((evs @ ready_if peer rc) @ [Sleep (1 / 100)])
                 @ concat (map (\<lambda>j. ready_if peer j @ [Sleep (1 / 100)])
                     [rc + 1..<rc + 1 + length (drop 3 ns) div 3])
                 @ ready_if peer (rc + 1 + length (drop 3 ns) div 3))
           | d # ds \<Rightarrow>
               Returned (d, ((evs @ ready_if peer rc) @ [Sleep (1 / 100)])
                 @ concat (map (\<lambda>j. ready_if peer j @ [Sleep (1 / 100)])
                     [rc + 1..<rc + 1 + length (takeWhile (\<lambda>n. ?h n = None) (drop 3 ns)) div 3])
                 @ ready_if peer (rc + 1
                     + length (takeWhile (\<lambda>n. ?h n = None) (drop 3 ns)) div 3)))"
        by blast
      show ?thesis
        unfolding step ih mf k' q qk throttled_step
        by (simp split: list.splits)
    qed
  qed
qed

lemma first_descs_hit:
  assumes "find is_descs (concat (map (peer_msgs peer) ns)) = Some m"
    and "deser (drop 6 m) = Some d"
  shows "\<exists>rest. List.map_filter (\<lambda>n. scan_descs deser (peer_msgs peer n)) ns = d # rest"
  using assms(1)
proof (induction ns)
  case Nil
  then show ?case by simp
next
  case (Cons n ns)
  show ?case
  proof (cases "find is_descs (peer_msgs peer n)")
    case None
    with Cons show ?thesis
      by (simp add: find_append_cases scan_descs_find map_filter_simps)
  next
    case (Some m')
    with Cons.prems have "m' = m" by (simp add: find_append_cases)
    with Some assms(2) show ?thesis
      by (simp add: scan_descs_find map_filter_simps)
  qed
qed

text \<open>
  C5, as the code has it. Each drain is scanned for its first \<open>DESCS:\<close> payload from the
  peer, which is deserialized without its six-byte prefix; the scan of that drain stops
  there. The loop ends at the first drain for which this gives a value other than
  \<open>None\<close>, and returns that value; with three drains per iteration this is iteration
  \<open>k div 3\<close> for drain \<open>k\<close>. A drain whose first \<open>DESCS:\<close> payload deserializes to
  \<open>None\<close> does not end the loop. In every run, returned or still waiting, \<open>READY\<close> is
  sent at the start of iterations 0, 5, 10, ... and at no other, and each iteration that
  found nothing ends with a 10 ms sleep. So if the first \<open>DESCS:\<close> payload of the whole
  history deserializes to a descriptor set, the loop returns it. The sender and the
  initiator run this loop against \<open>receiver\<close> and \<open>target\<close>.
\<close>

theorem requester_returns_first_deserialized_descs:
  "wait_for_descs peer deserialize_descs 0 drains [] =
     (case List.map_filter (\<lambda>n. scan_descs deserialize_descs (peer_msgs peer n)) drains of
        [] \<Rightarrow> Pending (throttled_ready_log peer (length drains div 3))
      | d # ds \<Rightarrow>
          Returned (d, throttled_ready_log peer
            (length (takeWhile
               (\<lambda>n. scan_descs deserialize_descs (peer_msgs peer n) = None) drains) div 3)))
   \<and> scan_descs deserialize_descs msgs =
       (case find is_descs msgs of None \<Rightarrow> None | Some m \<Rightarrow> deserialize_descs (drop 6 m))
   \<and> (find is_descs (concat (map (peer_msgs peer) drains)) = Some m
        \<and> deserialize_descs (drop 6 m) = Some d \<longrightarrow>
      wait_for_descs peer deserialize_descs 0 drains [] =
        Returned (d, throttled_ready_log peer
          (length (takeWhile
             (\<lambda>n. scan_descs deserialize_descs (peer_msgs peer n) = None) drains) div 3)))
   \<and> sender_exchange deserialize_descs drains =
       wait_for_descs ''receiver'' deserialize_descs 0 drains []
   \<and> initiator_exchange deserialize_descs drains =
       wait_for_descs ''target'' deserialize_descs 0 drains []"
proof -
  note char = wait_for_descs_char [of peer deserialize_descs 0 drains "[]"]
  have c1: "wait_for_descs peer deserialize_descs 0 drains [] =
     (case List.map_filter (\<lambda>n. scan_descs deserialize_descs (peer_msgs peer n)) drains of
        [] \<Rightarrow> Pending (throttled_ready_log peer (length drains div 3))
      | d # ds \<Rightarrow>
          Returned (d, throttled_ready_log peer
            (length (takeWhile
               (\<lambda>n. scan_descs deserialize_descs (peer_msgs peer n) = None) drains) div 3)))"
    unfolding char by (simp add: throttled_ready_log_def split: list.splits)
  have c3: "wait_for_descs peer deserialize_descs 0 drains [] =
        Returned (d, throttled_ready_log peer
          (length (takeWhile
             (\<lambda>n. scan_descs deserialize_descs (peer_msgs peer n) = None) drains) div 3))"
    if "find is_descs (concat (map (peer_msgs peer) drains)) = Some m
        \<and> deserialize_descs (drop 6 m) = Some d"
  proof -
    from that first_descs_hit [of peer drains m deserialize_descs d] obtain rest
      where "List.map_filter (\<lambda>n. scan_descs deserialize_descs (peer_msgs peer n)) drains
          = d # rest"
      by blast
    with c1 show ?thesis by simp
  qed
  from c1 c3 show ?thesis
    by (simp add: scan_descs_find sender_exchange_def initiator_exchange_def)
qed

theorem requester_returns_first_deserialized_descs_witness:
  "find is_descs (concat (map (peer_msgs ''receiver'') late_descs_drains)) = Some ''DESCS:abc''
   \<and> Some (drop 6 ''DESCS:abc'') = Some ''abc''
   \<and> length (takeWhile (\<lambda>n. scan_descs Some (peer_msgs ''receiver'' n) = None)
        late_descs_drains) = 16
   \<and> sender_exchange Some late_descs_drains
     = Returned (''abc'',
         [SendNotif ''receiver'' ''READY'', Sleep (1 / 100), Sleep (1 / 100), Sleep (1 / 100),
          Sleep (1 / 100), Sleep (1 / 100), SendNotif ''receiver'' ''READY''])"
  using requester_returns_first_deserialized_descs [of "''receiver''" Some late_descs_drains
      "[]" "''DESCS:abc''" "''abc''"]
  by (simp add: late_descs_drains_def peer_msgs_def is_descs_def throttled_ready_log_def
      ready_if_def map_filter_simps upt_rec)

text \<open>
  The claim as stated fails when the first \<open>DESCS:\<close> payload deserializes to \<open>None\<close>.
  The loop then goes on: it returns the descriptors of a later drain, and a second
  \<open>DESCS:\<close> payload in the same drain is never looked at.
\<close>

theorem requester_skips_descs_deserialized_to_none:
  "sender_exchange (\<lambda>s. if s = ''bad'' then None else Some s)
      [[''receiver'' \<mapsto> [''DESCS:bad'']], [''receiver'' \<mapsto> [''DESCS:good'']]]
     = Returned (''good'', [SendNotif ''receiver'' ''READY''])
   \<and> find is_descs (concat (map (peer_msgs ''receiver'')
        [[''receiver'' \<mapsto> [''DESCS:bad'']], [''receiver'' \<mapsto> [''DESCS:good'']]]))
     = Some ''DESCS:bad''
   \<and> sender_exchange (\<lambda>s. if s = ''bad'' then None else Some s)
      [[''receiver'' \<mapsto> [''DESCS:bad'', ''DESCS:good'']], Map.empty, Map.empty]
     = Pending [SendNotif ''receiver'' ''READY'', Sleep (1 / 100)]"
  by (simp add: sender_exchange_def wait_for_descs.simps peer_msgs_def is_descs_def
      numeral_3_eq_3)

section \<open>Retrieving metadata and descriptors\<close>

lemma get_metadata_absent: "md (KStr key) = None \<Longrightarrow> get_metadata key md = JNull"
  by (simp add: get_metadata_lookup)

lemma elapsed_Nil [simp]: "elapsed [] = 0"
  by (simp add: elapsed_def)

lemma elapsed_Cons [simp]: "elapsed (c # cs) = took c + 1 / 10 + elapsed cs"
  by (simp add: elapsed_def)

lemma elapsed_append [simp]: "elapsed (cs @ ds) = elapsed cs + elapsed ds"
  by (simp add: elapsed_def)

lemma poll_trace_0 [simp]: "poll_trace ev 0 = []"
  by (simp add: poll_trace_def)

lemma poll_trace_Suc [simp]: "poll_trace ev (Suc k) = ev # Sleep (1 / 10) # poll_trace ev k"
  by (simp add: poll_trace_def)

lemma poll_trace_numeral [simp]:
  "poll_trace ev (numeral n) = ev # Sleep (1 / 10) # poll_trace ev (pred_numeral n)"
  by (simp add: numeral_eq_Suc)

lemma absent_cases:
  assumes "absent key c"
  obtains d md where "c = Returns d md" and "0 \<le> d" and "md (KStr key) = None"
  using assms by (cases c) simp_all

lemma not_loaded_cases:
  assumes "not_loaded c"
  obtains d where "c = Returns d False" and "0 \<le> d"
  using assms by (cases c) simp_all

lemma elapsed_absent: "list_all (absent key) cs \<Longrightarrow> of_nat (length cs) / 10 \<le> elapsed cs"
proof (induction cs)
  case Nil
  show ?case by simp
next
  case (Cons c cs)
  from Cons.prems have "absent key c" and rest: "list_all (absent key) cs"
    by simp_all
  then obtain d md where "c = Returns d md" and "0 \<le> d"
    by (auto elim: absent_cases)
  with Cons.IH [OF rest] show ?case
    by (simp add: field_simps)
qed

lemma elapsed_not_loaded: "list_all not_loaded cs \<Longrightarrow> of_nat (length cs) / 10 \<le> elapsed cs"
proof (induction cs)
  case Nil
  show ?case by simp
next
  case (Cons c cs)
  from Cons.prems have "not_loaded c" and rest: "list_all not_loaded cs"
    by simp_all
  then obtain d where "c = Returns d False" and "0 \<le> d"
    by (auto elim: not_loaded_cases)
  with Cons.IH [OF rest] show ?case
    by (simp add: field_simps)
qed

lemma poll_budget:
  assumes "now - start_wait < timeout" and "0 \<le> d"
    and "k \<le> nat \<lceil>(start_wait + timeout - (now + d + 1 / 10)) * (10::rat)\<rceil>"
  shows "Suc k \<le> nat \<lceil>(start_wait + timeout - now) * 10\<rceil>"
proof -
  have "(start_wait + timeout - (now + d + 1 / 10)) * 10 \<le> (start_wait + timeout - now) * 10 - 1"
    using assms(2) by (simp add: algebra_simps)
  then have "\<lceil>(start_wait + timeout - (now + d + 1 / 10)) * 10\<rceil>
      \<le> \<lceil>(start_wait + timeout - now) * 10 - 1\<rceil>"
    by (rule ceiling_mono)
  also have "\<dots> = \<lceil>(start_wait + timeout - now) * 10\<rceil> - 1"
    by (simp only: ceiling_diff_one)
  finally have "\<lceil>(start_wait + timeout - (now + d + 1 / 10)) * 10\<rceil>
      \<le> \<lceil>(start_wait + timeout - now) * 10\<rceil> - 1" .
  moreover from assms(1) have "0 < \<lceil>(start_wait + timeout - now) * 10\<rceil>"
    by (simp add: algebra_simps)
  ultimately show ?thesis
    using assms(3) by linarith
qed

text \<open>
  While every lookup returns and finds nothing, the loop polls and sleeps until the
  clock reaches the timeout; it can fail to return only by running out of answers.
\<close>

lemma poll_metadata_absent:
  "list_all (absent key) cs \<Longrightarrow>
   \<exists>k\<le>length cs. k \<le> nat \<lceil>(start_wait + timeout - now) * 10\<rceil> \<and>
     (if timeout \<le> now + elapsed (take k cs) - start_wait
      then poll_metadata key start_wait timeout cs now JNull evs
             = Returned (JNull, now + elapsed (take k cs), evs @ poll_trace (GetMetadata key) k)
           \<and> (0 < k \<longrightarrow> now + elapsed (take (k - 1) cs) - start_wait < timeout)
      else k = length cs \<and>
           poll_metadata key start_wait timeout cs now JNull evs
             = Pending (now + elapsed cs, evs @ poll_trace (GetMetadata key) k @ [GetMetadata key]))"
proof (induction cs arbitrary: now evs)
  case Nil
  show ?case by simp
next
  case (Cons c cs)
  from Cons.prems have "absent key c" and rest: "list_all (absent key) cs"
    by simp_all
  then obtain d md where c: "c = Returns d md" and d: "0 \<le> d" and md: "md (KStr key) = None"
    by (auto elim: absent_cases)
  show ?case
  proof (cases "now - start_wait < timeout")
    case False
    then have "poll_metadata key start_wait timeout (c # cs) now JNull evs
        = Returned (JNull, now, evs)"
      by (simp add: c)
    with False show ?thesis
      by (intro exI [of _ 0]) simp
  next
    case True
    let ?now = "now + d + 1 / 10"
    let ?evs = "evs @ [GetMetadata key, Sleep (1 / 10)]"
    have step: "poll_metadata key start_wait timeout (c # cs) now JNull evs
        = poll_metadata key start_wait timeout cs ?now JNull ?evs"
      using True md by (simp add: c get_metadata_absent)
    from Cons.IH [OF rest, of ?now ?evs] obtain k where
      k: "k \<le> length cs" "k \<le> nat \<lceil>(start_wait + timeout - ?now) * 10\<rceil>"
      and body: "if timeout \<le> ?now + elapsed (take k cs) - start_wait
        then poll_metadata key start_wait timeout cs ?now JNull ?evs
               = Returned (JNull, ?now + elapsed (take k cs), ?evs @ poll_trace (GetMetadata key) k)
             \<and> (0 < k \<longrightarrow> ?now + elapsed (take (k - 1) cs) - start_wait < timeout)
        else k = length cs \<and>
             poll_metadata key start_wait timeout cs ?now JNull ?evs
               = Pending (?now + elapsed cs, ?evs @ poll_trace (GetMetadata key) k @ [GetMetadata key])"
      by blast
    have budget: "Suc k \<le> nat \<lceil>(start_wait + timeout - now) * 10\<rceil>"
      using True d k(2) by (rule poll_budget)
    have el: "now + elapsed (take (Suc k) (c # cs)) = ?now + elapsed (take k cs)"
      by (simp add: c)
    have before: "now + elapsed (take (Suc k - 1) (c # cs)) - start_wait < timeout"
      if "0 < k \<longrightarrow> ?now + elapsed (take (k - 1) cs) - start_wait < timeout"
    proof (cases k)
      case 0
      with True show ?thesis by simp
    next
      case (Suc j)
      with that show ?thesis by (simp add: c)
    qed
    show ?thesis
    proof (intro exI [of _ "Suc k"] conjI)
      show "Suc k \<le> length (c # cs)"
        using k(1) by simp
      show "Suc k \<le> nat \<lceil>(start_wait + timeout - now) * 10\<rceil>"
        by (rule budget)
      show "if timeout \<le> now + elapsed (take (Suc k) (c # cs)) - start_wait
        then poll_metadata key start_wait timeout (c # cs) now JNull evs
               = Returned (JNull, now + elapsed (take (Suc k) (c # cs)),
                   evs @ poll_trace (GetMetadata key) (Suc k))
             \<and> (0 < Suc k \<longrightarrow>
                  now + elapsed (take (Suc k - 1) (c # cs)) - start_wait < timeout)
        else Suc k = length (c # cs) \<and>
             poll_metadata key start_wait timeout (c # cs) now JNull evs
               = Pending (now + elapsed (c # cs),
                   evs @ poll_trace (GetMetadata key) (Suc k) @ [GetMetadata key])"
      proof (cases "timeout \<le> ?now + elapsed (take k cs) - start_wait")
        case True
        with body have r: "poll_metadata key start_wait timeout cs ?now JNull ?evs
               = Returned (JNull, ?now + elapsed (take k cs), ?evs @ poll_trace (GetMetadata key) k)"
          and b: "0 < k \<longrightarrow> ?now + elapsed (take (k - 1) cs) - start_wait < timeout"
          by simp_all
        from True have "timeout \<le> now + elapsed (take (Suc k) (c # cs)) - start_wait"
          unfolding el .
        moreover have "poll_metadata key start_wait timeout (c # cs) now JNull evs
               = Returned (JNull, now + elapsed (take (Suc k) (c # cs)),
                   evs @ poll_trace (GetMetadata key) (Suc k))"
          unfolding step r el by simp
        ultimately show ?thesis
          using before [OF b] by simp
      next
        case False
        with body have len: "k = length cs"
          and r: "poll_metadata key start_wait timeout cs ?now JNull ?evs
               = Pending (?now + elapsed cs, ?evs @ poll_trace (GetMetadata key) k @ [GetMetadata key])"
          by simp_all
        from False have "\<not> timeout \<le> now + elapsed (take (Suc k) (c # cs)) - start_wait"
          unfolding el .
        moreover have "poll_metadata key start_wait timeout (c # cs) now JNull evs
               = Pending (now + elapsed (c # cs),
                   evs @ poll_trace (GetMetadata key) (Suc k) @ [GetMetadata key])"
          unfolding step r by (simp add: c algebra_simps)
        ultimately show ?thesis
          using len by simp
      qed
    qed
  qed
qed

lemma poll_metadata_truthy:
  "truthy m \<Longrightarrow> poll_metadata key start_wait timeout cs now m evs = Returned (m, now, evs)"
proof (cases cs)
  case Nil
  assume "truthy m"
  with Nil show ?thesis by simp
next
  case (Cons c rest)
  assume "truthy m"
  with Cons show ?thesis by (cases c) simp_all
qed

text \<open>
  Lookups that find nothing before the timeout are each followed by the sleep, and the
  loop goes on with the next answer.
\<close>

lemma poll_metadata_prefix:
  "list_all (absent key) pre \<Longrightarrow> now + elapsed pre - start_wait < timeout \<Longrightarrow>
   poll_metadata key start_wait timeout (pre @ cs) now JNull evs
     = poll_metadata key start_wait timeout cs (now + elapsed pre) JNull
         (evs @ poll_trace (GetMetadata key) (length pre))"
proof (induction pre arbitrary: now evs)
  case Nil
  show ?case by simp
next
  case (Cons c pre)
  from Cons.prems have "absent key c" and rest: "list_all (absent key) pre"
    by simp_all
  then obtain d md where c: "c = Returns d md" and d: "0 \<le> d" and md: "md (KStr key) = None"
    by (auto elim: absent_cases)
  from elapsed_absent [OF rest] have "0 \<le> elapsed pre"
    by (rule order_trans [rotated]) simp
  with Cons.prems(2) d have test: "now - start_wait < timeout"
    by (simp add: c)
  let ?now = "now + d + 1 / 10"
  let ?evs = "evs @ [GetMetadata key, Sleep (1 / 10)]"
  have step: "poll_metadata key start_wait timeout ((c # pre) @ cs) now JNull evs
      = poll_metadata key start_wait timeout (pre @ cs) ?now JNull ?evs"
    using test md by (simp add: c get_metadata_absent)
  from Cons.prems(2) have "?now + elapsed pre - start_wait < timeout"
    by (simp add: c)
  from Cons.IH [OF rest this, of ?evs] show ?case
    unfolding step by (simp add: c algebra_simps)
qed

lemma poll_metadata_found:
  assumes "list_all (absent key) pre" and "elapsed pre < timeout"
    and "truthy (get_metadata key md)"
  shows "poll_metadata key now timeout (pre @ Returns d md # rest) now JNull []
     = Returned (get_metadata key md, now + elapsed pre + d,
         poll_trace (GetMetadata key) (length pre) @ [GetMetadata key])"
proof -
  from assms(2) have "now + elapsed pre - now < timeout"
    by simp
  from poll_metadata_prefix [OF assms(1) this, of "Returns d md # rest" "[]"]
  show ?thesis
    using assms(2,3) by (simp add: poll_metadata_truthy)
qed

text \<open>The same for the loop of the built-in mode.\<close>

lemma poll_remote_metadata_not_loaded:
  "list_all not_loaded cs \<Longrightarrow>
   \<exists>k\<le>length cs. k \<le> nat \<lceil>(start_wait + timeout - now) * 10\<rceil> \<and>
     (if timeout \<le> now + elapsed (take k cs) - start_wait
      then poll_remote_metadata name start_wait timeout cs now evs
             = Returned (None, now + elapsed (take k cs),
                 evs @ poll_trace (CheckRemoteMetadata name) k)
           \<and> (0 < k \<longrightarrow> now + elapsed (take (k - 1) cs) - start_wait < timeout)
      else k = length cs \<and>
           poll_remote_metadata name start_wait timeout cs now evs
             = Pending (now + elapsed cs,
                 evs @ poll_trace (CheckRemoteMetadata name) k @ [CheckRemoteMetadata name]))"
proof (induction cs arbitrary: now evs)
  case Nil
  show ?case by simp
next
  case (Cons c cs)
  from Cons.prems have "not_loaded c" and rest: "list_all not_loaded cs"
    by simp_all
  then obtain d where c: "c = Returns d False" and d: "0 \<le> d"
    by (auto elim: not_loaded_cases)
  show ?case
  proof (cases "now - start_wait < timeout")
    case False
    then have "poll_remote_metadata name start_wait timeout (c # cs) now evs
        = Returned (None, now, evs)"
      by (simp add: c)
    with False show ?thesis
      by (intro exI [of _ 0]) simp
  next
    case True
    let ?now = "now + d + 1 / 10"
    let ?evs = "evs @ [CheckRemoteMetadata name, Sleep (1 / 10)]"
    have step: "poll_remote_metadata name start_wait timeout (c # cs) now evs
        = poll_remote_metadata name start_wait timeout cs ?now ?evs"
      using True by (simp add: c)
    from Cons.IH [OF rest, of ?now ?evs] obtain k where
      k: "k \<le> length cs" "k \<le> nat \<lceil>(start_wait + timeout - ?now) * 10\<rceil>"
      and body: "if timeout \<le> ?now + elapsed (take k cs) - start_wait
        then poll_remote_metadata name start_wait timeout cs ?now ?evs
               = Returned (None, ?now + elapsed (take k cs),
                   ?evs @ poll_trace (CheckRemoteMetadata name) k)
             \<and> (0 < k \<longrightarrow> ?now + elapsed (take (k - 1) cs) - start_wait < timeout)
        else k = length cs \<and>
             poll_remote_metadata name start_wait timeout cs ?now ?evs
               = Pending (?now + elapsed cs,
                   ?evs @ poll_trace (CheckRemoteMetadata name) k @ [CheckRemoteMetadata name])"
      by blast
    have budget: "Suc k \<le> nat \<lceil>(start_wait + timeout - now) * 10\<rceil>"
      using True d k(2) by (rule poll_budget)
    have el: "now + elapsed (take (Suc k) (c # cs)) = ?now + elapsed (take k cs)"
      by (simp add: c)
    have before: "now + elapsed (take (Suc k - 1) (c # cs)) - start_wait < timeout"
      if "0 < k \<longrightarrow> ?now + elapsed (take (k - 1) cs) - start_wait < timeout"
    proof (cases k)
      case 0
      with True show ?thesis by simp
    next
      case (Suc j)
      with that show ?thesis by (simp add: c)
    qed
    show ?thesis
    proof (intro exI [of _ "Suc k"] conjI)
      show "Suc k \<le> length (c # cs)"
        using k(1) by simp
      show "Suc k \<le> nat \<lceil>(start_wait + timeout - now) * 10\<rceil>"
        by (rule budget)
      show "if timeout \<le> now + elapsed (take (Suc k) (c # cs)) - start_wait
        then poll_remote_metadata name start_wait timeout (c # cs) now evs
               = Returned (None, now + elapsed (take (Suc k) (c # cs)),
                   evs @ poll_trace (CheckRemoteMetadata name) (Suc k))
             \<and> (0 < Suc k \<longrightarrow>
                  now + elapsed (take (Suc k - 1) (c # cs)) - start_wait < timeout)
        else Suc k = length (c # cs) \<and>
             poll_remote_metadata name start_wait timeout (c # cs) now evs
               = Pending (now + elapsed (c # cs),
                   evs @ poll_trace (CheckRemoteMetadata name) (Suc k)
                     @ [CheckRemoteMetadata name])"
      proof (cases "timeout \<le> ?now + elapsed (take k cs) - start_wait")
        case True
        with body have r: "poll_remote_metadata name start_wait timeout cs ?now ?evs
               = Returned (None, ?now + elapsed (take k cs),
                   ?evs @ poll_trace (CheckRemoteMetadata name) k)"
          and b: "0 < k \<longrightarrow> ?now + elapsed (take (k - 1) cs) - start_wait < timeout"
          by simp_all
        from True have "timeout \<le> now + elapsed (take (Suc k) (c # cs)) - start_wait"
          unfolding el .
        moreover have "poll_remote_metadata name start_wait timeout (c # cs) now evs
               = Returned (None, now + elapsed (take (Suc k) (c # cs)),
                   evs @ poll_trace (CheckRemoteMetadata name) (Suc k))"
          unfolding step r el by simp
        ultimately show ?thesis
          using before [OF b] by simp
      next
        case False
        with body have len: "k = length cs"
          and r: "poll_remote_metadata name start_wait timeout cs ?now ?evs
               = Pending (?now + elapsed cs,
                   ?evs @ poll_trace (CheckRemoteMetadata name) k @ [CheckRemoteMetadata name])"
          by simp_all
        from False have "\<not> timeout \<le> now + elapsed (take (Suc k) (c # cs)) - start_wait"
          unfolding el .
        moreover have "poll_remote_metadata name start_wait timeout (c # cs) now evs
               = Pending (now + elapsed (c # cs),
                   evs @ poll_trace (CheckRemoteMetadata name) (Suc k)
                     @ [CheckRemoteMetadata name])"
          unfolding step r by (simp add: c algebra_simps)
        ultimately show ?thesis
          using len by simp
      qed
    qed
  qed
qed

lemma poll_remote_metadata_prefix:
  "list_all not_loaded pre \<Longrightarrow> now + elapsed pre - start_wait < timeout \<Longrightarrow>
   poll_remote_metadata name start_wait timeout (pre @ cs) now evs
     = poll_remote_metadata name start_wait timeout cs (now + elapsed pre)
         (evs @ poll_trace (CheckRemoteMetadata name) (length pre))"
proof (induction pre arbitrary: now evs)
  case Nil
  show ?case by simp
next
  case (Cons c pre)
  from Cons.prems have "not_loaded c" and rest: "list_all not_loaded pre"
    by simp_all
  then obtain d where c: "c = Returns d False" and d: "0 \<le> d"
    by (auto elim: not_loaded_cases)
  from elapsed_not_loaded [OF rest] have "0 \<le> elapsed pre"
    by (rule order_trans [rotated]) simp
  with Cons.prems(2) d have test: "now - start_wait < timeout"
    by (simp add: c)
  let ?now = "now + d + 1 / 10"
  let ?evs = "evs @ [CheckRemoteMetadata name, Sleep (1 / 10)]"
  have step: "poll_remote_metadata name start_wait timeout ((c # pre) @ cs) now evs
      = poll_remote_metadata name start_wait timeout (pre @ cs) ?now ?evs"
    using test by (simp add: c)
  from Cons.prems(2) have "?now + elapsed pre - start_wait < timeout"
    by (simp add: c)
  from Cons.IH [OF rest this, of ?evs] show ?case
    unfolding step by (simp add: c algebra_simps)
qed

text \<open>
  The elapsed time of a retrieval that timed out: the last test of the clock that
  passed was followed by one poll and one sleep.
\<close>

lemma timed_out_bound:
  assumes "0 < k" and "k \<le> length cs" and "elapsed (take (k - 1) cs) < timeout"
  shows "elapsed (take k cs) < timeout + 1 / 10 + took (cs ! (k - 1))"
proof -
  from assms(1,2) have "take k cs = take (k - 1) cs @ [cs ! (k - 1)]"
    using take_Suc_conv_app_nth [of "k - 1" cs] by simp
  then have "elapsed (take k cs) = elapsed (take (k - 1) cs) + (took (cs ! (k - 1)) + 1 / 10)"
    by simp
  with assms(3) show ?thesis
    by simp
qed

lemma enough_answers:
  assumes "nat \<lceil>timeout * 10\<rceil> \<le> length cs" and "of_nat (length cs) / 10 \<le> elapsed cs"
  shows "(timeout::rat) \<le> elapsed cs"
proof -
  from assms(1) have "\<lceil>timeout * 10\<rceil> \<le> int (length cs)"
    by (simp add: nat_le_iff)
  then have "(of_int \<lceil>timeout * 10\<rceil> :: rat) \<le> of_int (int (length cs))"
    by (simp only: of_int_le_iff)
  then have b: "(of_int \<lceil>timeout * 10\<rceil> :: rat) \<le> of_nat (length cs)"
    by (simp only: of_int_of_nat_eq)
  have a: "timeout * 10 \<le> of_int \<lceil>timeout * 10\<rceil>"
    by (rule le_of_int_ceiling)
  from a b have "timeout * 10 \<le> of_nat (length cs)"
    by (rule order_trans)
  with assms(2) show ?thesis
    by (simp add: field_simps)
qed

lemma retrieve_tcp_absent:
  assumes "list_all (absent key) (get_metadata_calls e)"
  shows "\<exists>k\<le>length (get_metadata_calls e). k \<le> nat \<lceil>timeout * 10\<rceil> \<and>
     (if timeout \<le> elapsed (take k (get_metadata_calls e))
      then retrieve_agent_metadata b64decode add_remote_agent e key timeout False remote now
             = Returned (None, now + elapsed (take k (get_metadata_calls e)),
                 poll_trace (GetMetadata key) k)
           \<and> (0 < k \<longrightarrow> elapsed (take k (get_metadata_calls e))
                 < timeout + 1 / 10 + took (get_metadata_calls e ! (k - 1)))
      else k = length (get_metadata_calls e) \<and>
           retrieve_agent_metadata b64decode add_remote_agent e key timeout False remote now
             = Pending (now + elapsed (get_metadata_calls e),
                 poll_trace (GetMetadata key) k @ [GetMetadata key]))"
proof -
  let ?cs = "get_metadata_calls e"
  have "\<exists>k\<le>length ?cs. k \<le> nat \<lceil>timeout * 10\<rceil> \<and>
     (if timeout \<le> elapsed (take k ?cs)
      then poll_metadata key now timeout ?cs now JNull []
             = Returned (JNull, now + elapsed (take k ?cs), poll_trace (GetMetadata key) k)
           \<and> (0 < k \<longrightarrow> elapsed (take (k - 1) ?cs) < timeout)
      else k = length ?cs \<and>
           poll_metadata key now timeout ?cs now JNull []
             = Pending (now + elapsed ?cs, poll_trace (GetMetadata key) k @ [GetMetadata key]))"
    using poll_metadata_absent [OF assms, of now timeout now "[]"]
    by (simp only: add_diff_cancel_left' append_Nil)
  then obtain k where
    k: "k \<le> length ?cs" "k \<le> nat \<lceil>timeout * 10\<rceil>"
    and body: "if timeout \<le> elapsed (take k ?cs)
      then poll_metadata key now timeout ?cs now JNull []
             = Returned (JNull, now + elapsed (take k ?cs), poll_trace (GetMetadata key) k)
           \<and> (0 < k \<longrightarrow> elapsed (take (k - 1) ?cs) < timeout)
      else k = length ?cs \<and>
           poll_metadata key now timeout ?cs now JNull []
             = Pending (now + elapsed ?cs, poll_trace (GetMetadata key) k @ [GetMetadata key])"
    by blast
  show ?thesis
  proof (intro exI [of _ k] conjI)
    show "k \<le> length ?cs" by (rule k(1))
    show "k \<le> nat \<lceil>timeout * 10\<rceil>" by (rule k(2))
    show "if timeout \<le> elapsed (take k ?cs)
      then retrieve_agent_metadata b64decode add_remote_agent e key timeout False remote now
             = Returned (None, now + elapsed (take k ?cs), poll_trace (GetMetadata key) k)
           \<and> (0 < k \<longrightarrow> elapsed (take k ?cs) < timeout + 1 / 10 + took (?cs ! (k - 1)))
      else k = length ?cs \<and>
           retrieve_agent_metadata b64decode add_remote_agent e key timeout False remote now
             = Pending (now + elapsed ?cs, poll_trace (GetMetadata key) k @ [GetMetadata key])"
    proof (cases "timeout \<le> elapsed (take k ?cs)")
      case True
      with body have r: "poll_metadata key now timeout ?cs now JNull []
             = Returned (JNull, now + elapsed (take k ?cs), poll_trace (GetMetadata key) k)"
        and b: "0 < k \<longrightarrow> elapsed (take (k - 1) ?cs) < timeout"
        by simp_all
      have "elapsed (take k ?cs) < timeout + 1 / 10 + took (?cs ! (k - 1))" if "0 < k"
      proof -
        from b that have "elapsed (take (k - 1) ?cs) < timeout"
          by blast
        from timed_out_bound [OF that k(1) this] show ?thesis .
      qed
      with True r show ?thesis
        by (simp add: retrieve_agent_metadata_def)
    next
      case False
      with body show ?thesis
        by (simp add: retrieve_agent_metadata_def)
    qed
  qed
qed

lemma retrieve_tcp_returns:
  assumes "list_all (absent key) (get_metadata_calls e)"
    and "nat \<lceil>timeout * 10\<rceil> \<le> length (get_metadata_calls e)"
  shows "returned (retrieve_agent_metadata b64decode add_remote_agent e key timeout False
           remote now)"
proof -
  let ?cs = "get_metadata_calls e"
  from retrieve_tcp_absent [OF assms(1), of timeout b64decode add_remote_agent remote now]
  obtain k where
    body: "if timeout \<le> elapsed (take k ?cs)
      then retrieve_agent_metadata b64decode add_remote_agent e key timeout False remote now
             = Returned (None, now + elapsed (take k ?cs), poll_trace (GetMetadata key) k)
           \<and> (0 < k \<longrightarrow> elapsed (take k ?cs) < timeout + 1 / 10 + took (?cs ! (k - 1)))
      else k = length ?cs \<and>
           retrieve_agent_metadata b64decode add_remote_agent e key timeout False remote now
             = Pending (now + elapsed ?cs, poll_trace (GetMetadata key) k @ [GetMetadata key])"
    by blast
  show ?thesis
  proof (cases "timeout \<le> elapsed (take k ?cs)")
    case True
    with body show ?thesis by simp
  next
    case False
    with body have "k = length ?cs" by simp
    with False have "\<not> timeout \<le> elapsed ?cs" by simp
    with enough_answers [OF assms(2) elapsed_absent [OF assms(1)]] show ?thesis
      by simp
  qed
qed

lemma retrieve_tcp_found:
  assumes "get_metadata_calls e = pre @ Returns d md # rest"
    and "list_all (absent key) pre" and "elapsed pre < timeout"
    and "get_metadata key md = JStr s" and "s \<noteq> []" and "b64decode s = Inr metadata"
  shows "retrieve_agent_metadata b64decode add_remote_agent e key timeout False remote now
     = Returned (Some (add_remote_agent metadata), now + elapsed pre + d,
         poll_trace (GetMetadata key) (length pre) @ [GetMetadata key])"
proof -
  from assms(4,5) have "truthy (get_metadata key md)"
    by simp
  from poll_metadata_found [OF assms(2,3) this, of now d rest]
  show ?thesis
    using assms(1,4,5,6) by (simp add: retrieve_agent_metadata_def)
qed

lemma retrieve_builtin_not_loaded:
  assumes "name \<noteq> []" and "fetch_remote_metadata_call e = Returns d0 ()"
    and "list_all not_loaded (check_remote_metadata_calls e)"
  shows "\<exists>k\<le>length (check_remote_metadata_calls e). k \<le> nat \<lceil>timeout * 10\<rceil> \<and>
     (if timeout \<le> elapsed (take k (check_remote_metadata_calls e))
      then retrieve_agent_metadata b64decode add_remote_agent e key timeout True (Some name) now
             = Returned (None, now + d0 + elapsed (take k (check_remote_metadata_calls e)),
                 FetchRemoteMetadata name # poll_trace (CheckRemoteMetadata name) k)
           \<and> (0 < k \<longrightarrow> elapsed (take k (check_remote_metadata_calls e))
                 < timeout + 1 / 10 + took (check_remote_metadata_calls e ! (k - 1)))
      else k = length (check_remote_metadata_calls e) \<and>
           retrieve_agent_metadata b64decode add_remote_agent e key timeout True (Some name) now
             = Pending (now + d0 + elapsed (check_remote_metadata_calls e),
                 FetchRemoteMetadata name # poll_trace (CheckRemoteMetadata name) k
                   @ [CheckRemoteMetadata name]))"
proof -
  let ?cs = "check_remote_metadata_calls e"
  have "\<exists>k\<le>length ?cs. k \<le> nat \<lceil>timeout * 10\<rceil> \<and>
     (if timeout \<le> elapsed (take k ?cs)
      then poll_remote_metadata name (now + d0) timeout ?cs (now + d0) [FetchRemoteMetadata name]
             = Returned (None, now + d0 + elapsed (take k ?cs),
                 FetchRemoteMetadata name # poll_trace (CheckRemoteMetadata name) k)
           \<and> (0 < k \<longrightarrow> elapsed (take (k - 1) ?cs) < timeout)
      else k = length ?cs \<and>
           poll_remote_metadata name (now + d0) timeout ?cs (now + d0) [FetchRemoteMetadata name]
             = Pending (now + d0 + elapsed ?cs,
                 FetchRemoteMetadata name # poll_trace (CheckRemoteMetadata name) k
                   @ [CheckRemoteMetadata name]))"
    using poll_remote_metadata_not_loaded
      [OF assms(3), of "now + d0" timeout "now + d0" name "[FetchRemoteMetadata name]"]
    by (simp only: add_diff_cancel_left' append_Nil append_Cons)
  then obtain k where
    k: "k \<le> length ?cs" "k \<le> nat \<lceil>timeout * 10\<rceil>"
    and body: "if timeout \<le> elapsed (take k ?cs)
      then poll_remote_metadata name (now + d0) timeout ?cs (now + d0) [FetchRemoteMetadata name]
             = Returned (None, now + d0 + elapsed (take k ?cs),
                 FetchRemoteMetadata name # poll_trace (CheckRemoteMetadata name) k)
           \<and> (0 < k \<longrightarrow> elapsed (take (k - 1) ?cs) < timeout)
      else k = length ?cs \<and>
           poll_remote_metadata name (now + d0) timeout ?cs (now + d0) [FetchRemoteMetadata name]
             = Pending (now + d0 + elapsed ?cs,
                 FetchRemoteMetadata name # poll_trace (CheckRemoteMetadata name) k
                   @ [CheckRemoteMetadata name])"
    by blast
  show ?thesis
  proof (intro exI [of _ k] conjI)
    show "k \<le> length ?cs" by (rule k(1))
    show "k \<le> nat \<lceil>timeout * 10\<rceil>" by (rule k(2))
    show "if timeout \<le> elapsed (take k ?cs)
      then retrieve_agent_metadata b64decode add_remote_agent e key timeout True (Some name) now
             = Returned (None, now + d0 + elapsed (take k ?cs),
                 FetchRemoteMetadata name # poll_trace (CheckRemoteMetadata name) k)
           \<and> (0 < k \<longrightarrow> elapsed (take k ?cs) < timeout + 1 / 10 + took (?cs ! (k - 1)))
      else k = length ?cs \<and>
           retrieve_agent_metadata b64decode add_remote_agent e key timeout True (Some name) now
             = Pending (now + d0 + elapsed ?cs,
                 FetchRemoteMetadata name # poll_trace (CheckRemoteMetadata name) k
                   @ [CheckRemoteMetadata name])"
    proof (cases "timeout \<le> elapsed (take k ?cs)")
      case True
      with body have r: "poll_remote_metadata name (now + d0) timeout ?cs (now + d0)
               [FetchRemoteMetadata name]
             = Returned (None, now + d0 + elapsed (take k ?cs),
                 FetchRemoteMetadata name # poll_trace (CheckRemoteMetadata name) k)"
        and b: "0 < k \<longrightarrow> elapsed (take (k - 1) ?cs) < timeout"
        by simp_all
      have "elapsed (take k ?cs) < timeout + 1 / 10 + took (?cs ! (k - 1))" if "0 < k"
      proof -
        from b that have "elapsed (take (k - 1) ?cs) < timeout"
          by blast
        from timed_out_bound [OF that k(1) this] show ?thesis .
      qed
      with True r show ?thesis
        using assms(1,2) by (simp add: retrieve_agent_metadata_def)
    next
      case False
      with body show ?thesis
        using assms(1,2) by (simp add: retrieve_agent_metadata_def)
    qed
  qed
qed

lemma retrieve_builtin_returns:
  assumes "name \<noteq> []" and "fetch_remote_metadata_call e = Returns d0 ()"
    and "list_all not_loaded (check_remote_metadata_calls e)"
    and "nat \<lceil>timeout * 10\<rceil> \<le> length (check_remote_metadata_calls e)"
  shows "returned (retrieve_agent_metadata b64decode add_remote_agent e key timeout True
           (Some name) now)"
proof -
  let ?cs = "check_remote_metadata_calls e"
  from retrieve_builtin_not_loaded
    [OF assms(1,2,3), of timeout b64decode add_remote_agent key now]
  obtain k where
    body: "if timeout \<le> elapsed (take k ?cs)
      then retrieve_agent_metadata b64decode add_remote_agent e key timeout True (Some name) now
             = Returned (None, now + d0 + elapsed (take k ?cs),
                 FetchRemoteMetadata name # poll_trace (CheckRemoteMetadata name) k)
           \<and> (0 < k \<longrightarrow> elapsed (take k ?cs) < timeout + 1 / 10 + took (?cs ! (k - 1)))
      else k = length ?cs \<and>
           retrieve_agent_metadata b64decode add_remote_agent e key timeout True (Some name) now
             = Pending (now + d0 + elapsed ?cs,
                 FetchRemoteMetadata name # poll_trace (CheckRemoteMetadata name) k
                   @ [CheckRemoteMetadata name])"
    by blast
  show ?thesis
  proof (cases "timeout \<le> elapsed (take k ?cs)")
    case True
    with body show ?thesis by simp
  next
    case False
    with body have "k = length ?cs" by simp
    with False have "\<not> timeout \<le> elapsed ?cs" by simp
    with enough_answers [OF assms(4) elapsed_not_loaded [OF assms(3)]] show ?thesis
      by simp
  qed
qed

lemma retrieve_builtin_loaded:
  assumes "name \<noteq> []" and "fetch_remote_metadata_call e = Returns d0 ()"
    and "check_remote_metadata_calls e = pre @ Returns d True # rest"
    and "list_all not_loaded pre" and "elapsed pre < timeout"
  shows "retrieve_agent_metadata b64decode add_remote_agent e key timeout True (Some name) now
     = Returned (Some name, now + d0 + elapsed pre + d,
         FetchRemoteMetadata name # poll_trace (CheckRemoteMetadata name) (length pre)
           @ [CheckRemoteMetadata name])"
proof -
  from assms(5) have "now + d0 + elapsed pre - (now + d0) < timeout"
    by simp
  from poll_remote_metadata_prefix
    [OF assms(4) this, of name "Returns d True # rest" "[FetchRemoteMetadata name]"]
  show ?thesis
    using assms(1,2,3,5) by (simp add: retrieve_agent_metadata_def)
qed

lemma retrieve_descriptors_once:
  assumes "get_metadata_calls e = Returns d md # rest"
  shows "md (KStr key) = None \<Longrightarrow>
      retrieve_descriptors b64decode deserialize_descs e key now
        = Returned (None, now + d, [GetMetadata key])"
    and "get_metadata key md = JStr s \<Longrightarrow> s \<noteq> [] \<Longrightarrow> b64decode s = Inr serialized \<Longrightarrow>
      retrieve_descriptors b64decode deserialize_descs e key now
        = Returned (deserialize_descs serialized, now + d, [GetMetadata key])"
  using assms by (simp_all add: retrieve_descriptors_def get_metadata_absent)

text \<open>
  C6. \<open>retrieve_agent_metadata\<close>, in the TCP mode and in the built-in mode, tests the
  clock, polls, and sleeps 0.1 s after a poll that found nothing. While every poll
  returns and finds nothing it makes at most \<open>\<lceil>timeout / 0.1\<rceil>\<close> polls and then
  returns \<open>None\<close>, not before the timeout has elapsed and less than 0.1 s plus the time
  of the last poll after it; it can fail to return only when a poll has not returned,
  and with \<open>\<lceil>timeout / 0.1\<rceil>\<close> answers on record it returns. A poll made before the
  timeout that finds the value (a non-empty string, in the TCP mode) ends the loop,
  and the retrieval returns the agent's name. \<open>retrieve_descriptors\<close> makes one
  lookup and returns what it finds, \<open>None\<close> when the key is absent, without sleeping
  or looking again.
\<close>

theorem retrieve_polls_until_found_or_timed_out:
  "(list_all (absent key) (get_metadata_calls e) \<longrightarrow>
      (\<exists>k\<le>length (get_metadata_calls e). k \<le> nat \<lceil>timeout * 10\<rceil> \<and>
         (if timeout \<le> elapsed (take k (get_metadata_calls e))
          then retrieve_agent_metadata b64decode add_remote_agent e key timeout False remote now
                 = Returned (None, now + elapsed (take k (get_metadata_calls e)),
                     poll_trace (GetMetadata key) k)
               \<and> (0 < k \<longrightarrow> elapsed (take k (get_metadata_calls e))
                     < timeout + 1 / 10 + took (get_metadata_calls e ! (k - 1)))
          else k = length (get_metadata_calls e) \<and>
               retrieve_agent_metadata b64decode add_remote_agent e key timeout False remote now
                 = Pending (now + elapsed (get_metadata_calls e),
                     poll_trace (GetMetadata key) k @ [GetMetadata key])))
      \<and> (nat \<lceil>timeout * 10\<rceil> \<le> length (get_metadata_calls e) \<longrightarrow>
           returned (retrieve_agent_metadata b64decode add_remote_agent e key timeout False
             remote now)))
   \<and> (get_metadata_calls e' = pre @ Returns d md # rest \<and> list_all (absent key) pre
        \<and> elapsed pre < timeout \<and> get_metadata key md = JStr s \<and> s \<noteq> []
        \<and> b64decode s = Inr metadata \<longrightarrow>
      retrieve_agent_metadata b64decode add_remote_agent e' key timeout False remote now
        = Returned (Some (add_remote_agent metadata), now + elapsed pre + d,
            poll_trace (GetMetadata key) (length pre) @ [GetMetadata key]))
   \<and> (name \<noteq> [] \<and> fetch_remote_metadata_call b = Returns d0 ()
        \<and> list_all not_loaded (check_remote_metadata_calls b) \<longrightarrow>
      (\<exists>k\<le>length (check_remote_metadata_calls b). k \<le> nat \<lceil>timeout * 10\<rceil> \<and>
         (if timeout \<le> elapsed (take k (check_remote_metadata_calls b))
          then retrieve_agent_metadata b64decode add_remote_agent b key timeout True
                   (Some name) now
                 = Returned (None, now + d0 + elapsed (take k (check_remote_metadata_calls b)),
                     FetchRemoteMetadata name # poll_trace (CheckRemoteMetadata name) k)
               \<and> (0 < k \<longrightarrow> elapsed (take k (check_remote_metadata_calls b))
                     < timeout + 1 / 10 + took (check_remote_metadata_calls b ! (k - 1)))
          else k = length (check_remote_metadata_calls b) \<and>
               retrieve_agent_metadata b64decode add_remote_agent b key timeout True
                   (Some name) now
                 = Pending (now + d0 + elapsed (check_remote_metadata_calls b),
                     FetchRemoteMetadata name # poll_trace (CheckRemoteMetadata name) k
                       @ [CheckRemoteMetadata name])))
      \<and> (nat \<lceil>timeout * 10\<rceil> \<le> length (check_remote_metadata_calls b) \<longrightarrow>
           returned (retrieve_agent_metadata b64decode add_remote_agent b key timeout True
             (Some name) now)))
   \<and> (name \<noteq> [] \<and> fetch_remote_metadata_call b' = Returns d0 ()
        \<and> check_remote_metadata_calls b' = pre' @ Returns d' True # rest'
        \<and> list_all not_loaded pre' \<and> elapsed pre' < timeout \<longrightarrow>
      retrieve_agent_metadata b64decode add_remote_agent b' key timeout True (Some name) now
        = Returned (Some name, now + d0 + elapsed pre' + d',
            FetchRemoteMetadata name # poll_trace (CheckRemoteMetadata name) (length pre')
              @ [CheckRemoteMetadata name]))
   \<and> (get_metadata_calls g = Returns dg mdg # restg \<and> mdg (KStr key) = None \<longrightarrow>
      retrieve_descriptors b64decode deserialize_descs g key now
        = Returned (None, now + dg, [GetMetadata key]))
   \<and> (get_metadata_calls g' = Returns dg' mdg' # restg' \<and> get_metadata key mdg' = JStr s'
        \<and> s' \<noteq> [] \<and> b64decode s' = Inr serialized \<longrightarrow>
      retrieve_descriptors b64decode deserialize_descs g' key now
        = Returned (deserialize_descs serialized, now + dg', [GetMetadata key]))"
proof (intro conjI impI)
  assume a: "list_all (absent key) (get_metadata_calls e)"
  from retrieve_tcp_absent [OF a]
  show "\<exists>k\<le>length (get_metadata_calls e). k \<le> nat \<lceil>timeout * 10\<rceil> \<and>
         (if timeout \<le> elapsed (take k (get_metadata_calls e))
          then retrieve_agent_metadata b64decode add_remote_agent e key timeout False remote now
                 = Returned (None, now + elapsed (take k (get_metadata_calls e)),
                     poll_trace (GetMetadata key) k)
               \<and> (0 < k \<longrightarrow> elapsed (take k (get_metadata_calls e))
                     < timeout + 1 / 10 + took (get_metadata_calls e ! (k - 1)))
          else k = length (get_metadata_calls e) \<and>
               retrieve_agent_metadata b64decode add_remote_agent e key timeout False remote now
                 = Pending (now + elapsed (get_metadata_calls e),
                     poll_trace (GetMetadata key) k @ [GetMetadata key]))" .
next
  assume "list_all (absent key) (get_metadata_calls e)"
    and "nat \<lceil>timeout * 10\<rceil> \<le> length (get_metadata_calls e)"
  then show "returned (retrieve_agent_metadata b64decode add_remote_agent e key timeout False
             remote now)"
    by (rule retrieve_tcp_returns)
next
  assume a: "get_metadata_calls e' = pre @ Returns d md # rest \<and> list_all (absent key) pre
        \<and> elapsed pre < timeout \<and> get_metadata key md = JStr s \<and> s \<noteq> []
        \<and> b64decode s = Inr metadata"
  then have 1: "get_metadata_calls e' = pre @ Returns d md # rest"
    and 2: "list_all (absent key) pre" and 3: "elapsed pre < timeout"
    and 4: "get_metadata key md = JStr s" and 5: "s \<noteq> []"
    and 6: "b64decode s = Inr metadata"
    by simp_all
  from retrieve_tcp_found [where b64decode = b64decode and s = s, OF 1 2 3 4 5 6]
  show "retrieve_agent_metadata b64decode add_remote_agent e' key timeout False remote now
        = Returned (Some (add_remote_agent metadata), now + elapsed pre + d,
            poll_trace (GetMetadata key) (length pre) @ [GetMetadata key])" .
next
  assume a: "name \<noteq> [] \<and> fetch_remote_metadata_call b = Returns d0 ()
        \<and> list_all not_loaded (check_remote_metadata_calls b)"
  then have 1: "name \<noteq> []" and 2: "fetch_remote_metadata_call b = Returns d0 ()"
    and 3: "list_all not_loaded (check_remote_metadata_calls b)"
    by simp_all
  from retrieve_builtin_not_loaded [OF 1 2 3]
  show "\<exists>k\<le>length (check_remote_metadata_calls b). k \<le> nat \<lceil>timeout * 10\<rceil> \<and>
         (if timeout \<le> elapsed (take k (check_remote_metadata_calls b))
          then retrieve_agent_metadata b64decode add_remote_agent b key timeout True
                   (Some name) now
                 = Returned (None, now + d0 + elapsed (take k (check_remote_metadata_calls b)),
                     FetchRemoteMetadata name # poll_trace (CheckRemoteMetadata name) k)
               \<and> (0 < k \<longrightarrow> elapsed (take k (check_remote_metadata_calls b))
                     < timeout + 1 / 10 + took (check_remote_metadata_calls b ! (k - 1)))
          else k = length (check_remote_metadata_calls b) \<and>
               retrieve_agent_metadata b64decode add_remote_agent b key timeout True
                   (Some name) now
                 = Pending (now + d0 + elapsed (check_remote_metadata_calls b),
                     FetchRemoteMetadata name # poll_trace (CheckRemoteMetadata name) k
                       @ [CheckRemoteMetadata name]))" .
next
  assume a: "name \<noteq> [] \<and> fetch_remote_metadata_call b = Returns d0 ()
        \<and> list_all not_loaded (check_remote_metadata_calls b)"
    and n: "nat \<lceil>timeout * 10\<rceil> \<le> length (check_remote_metadata_calls b)"
  from a have 1: "name \<noteq> []" and 2: "fetch_remote_metadata_call b = Returns d0 ()"
    and 3: "list_all not_loaded (check_remote_metadata_calls b)"
    by simp_all
  from retrieve_builtin_returns [OF 1 2 3 n]
  show "returned (retrieve_agent_metadata b64decode add_remote_agent b key timeout True
             (Some name) now)" .
next
  assume a: "name \<noteq> [] \<and> fetch_remote_metadata_call b' = Returns d0 ()
        \<and> check_remote_metadata_calls b' = pre' @ Returns d' True # rest'
        \<and> list_all not_loaded pre' \<and> elapsed pre' < timeout"
  then have 1: "name \<noteq> []" and 2: "fetch_remote_metadata_call b' = Returns d0 ()"
    and 3: "check_remote_metadata_calls b' = pre' @ Returns d' True # rest'"
    and 4: "list_all not_loaded pre'" and 5: "elapsed pre' < timeout"
    by simp_all
  from retrieve_builtin_loaded [OF 1 2 3 4 5]
  show "retrieve_agent_metadata b64decode add_remote_agent b' key timeout True (Some name) now
        = Returned (Some name, now + d0 + elapsed pre' + d',
            FetchRemoteMetadata name # poll_trace (CheckRemoteMetadata name) (length pre')
              @ [CheckRemoteMetadata name])" .
next
  assume "get_metadata_calls g = Returns dg mdg # restg \<and> mdg (KStr key) = None"
  then show "retrieve_descriptors b64decode deserialize_descs g key now
        = Returned (None, now + dg, [GetMetadata key])"
    by (simp add: retrieve_descriptors_once(1))
next
  assume a: "get_metadata_calls g' = Returns dg' mdg' # restg' \<and> get_metadata key mdg' = JStr s'
        \<and> s' \<noteq> [] \<and> b64decode s' = Inr serialized"
  then have 1: "get_metadata_calls g' = Returns dg' mdg' # restg'"
    and 2: "get_metadata key mdg' = JStr s'" and 3: "s' \<noteq> []"
    and 4: "b64decode s' = Inr serialized"
    by simp_all
  from retrieve_descriptors_once(2) [where b64decode = b64decode and s = s', OF 1 2 3 4]
  show "retrieve_descriptors b64decode deserialize_descs g' key now
        = Returned (deserialize_descs serialized, now + dg', [GetMetadata key])" .
qed

lemmas retrieve_eval =
  retrieve_agent_metadata_def retrieve_descriptors_def silent_env_def publishing_env_def
  lookups_def b64decode_QUJD_def get_metadata_lookup

theorem retrieve_polls_until_found_or_timed_out_witness:
  "list_all (absent ''target_meta'') (get_metadata_calls silent_env)
   \<and> nat \<lceil>(1 / 2 :: rat) * 10\<rceil> \<le> length (get_metadata_calls silent_env)
   \<and> retrieve_agent_metadata b64decode_QUJD (\<lambda>metadata. ''target'') silent_env ''target_meta''
        (1 / 2) False None 0
      = Returned (None, 3 / 5, poll_trace (GetMetadata ''target_meta'') 5)
   \<and> (1 / 2 :: rat) \<le> 3 / 5
   \<and> (3 / 5 :: rat) < 1 / 2 + 1 / 10 + took (get_metadata_calls silent_env ! 4)
   \<and> get_metadata_calls publishing_env
      = [Returns 0 Map.empty, Returns (1 / 50) Map.empty]
        @ Returns (1 / 100) [KStr ''target_meta'' \<mapsto> JStr ''QUJD''] # [Blocks]
   \<and> list_all (absent ''target_meta'') [Returns 0 Map.empty, Returns (1 / 50) Map.empty]
   \<and> elapsed [Returns 0 Map.empty, Returns (1 / 50) Map.empty :: metadata call] < 1 / 2
   \<and> get_metadata ''target_meta'' [KStr ''target_meta'' \<mapsto> JStr ''QUJD''] = JStr ''QUJD''
   \<and> b64decode_QUJD ''QUJD'' = Inr ''ABC''
   \<and> retrieve_agent_metadata b64decode_QUJD (\<lambda>metadata. ''target'') publishing_env
        ''target_meta'' (1 / 2) False None 0
      = Returned (Some ''target'', 23 / 100,
          poll_trace (GetMetadata ''target_meta'') 2 @ [GetMetadata ''target_meta''])
   \<and> fetch_remote_metadata_call silent_env = Returns (1 / 100) ()
   \<and> list_all not_loaded (check_remote_metadata_calls silent_env)
   \<and> nat \<lceil>(1 / 2 :: rat) * 10\<rceil> \<le> length (check_remote_metadata_calls silent_env)
   \<and> retrieve_agent_metadata b64decode_QUJD (\<lambda>metadata. ''target'') silent_env ''target_meta''
        (1 / 2) True (Some ''target'') 0
      = Returned (None, 61 / 100,
          FetchRemoteMetadata ''target'' # poll_trace (CheckRemoteMetadata ''target'') 5)
   \<and> fetch_remote_metadata_call publishing_env = Returns (1 / 100) ()
   \<and> check_remote_metadata_calls publishing_env
      = [Returns 0 False] @ Returns (1 / 100) True # [Blocks]
   \<and> list_all not_loaded [Returns 0 False]
   \<and> elapsed [Returns 0 False] < 1 / 2
   \<and> retrieve_agent_metadata b64decode_QUJD (\<lambda>metadata. ''target'') publishing_env
        ''target_meta'' (1 / 2) True (Some ''target'') 0
      = Returned (Some ''target'', 3 / 25,
          FetchRemoteMetadata ''target'' # poll_trace (CheckRemoteMetadata ''target'') 1
            @ [CheckRemoteMetadata ''target''])
   \<and> get_metadata_calls silent_env
      = Returns (1 / 50) Map.empty
        # [Returns (1 / 50) Map.empty, Returns (1 / 50) Map.empty, Returns (1 / 50) Map.empty,
           Returns (1 / 50) Map.empty]
   \<and> retrieve_descriptors b64decode_QUJD Some silent_env ''target_meta'' 0
      = Returned (None, 1 / 50, [GetMetadata ''target_meta''])
   \<and> get_metadata_calls
        (lookups [Returns (1 / 100) [KStr ''target_meta'' \<mapsto> JStr ''QUJD''], Blocks])
      = Returns (1 / 100) [KStr ''target_meta'' \<mapsto> JStr ''QUJD''] # [Blocks]
   \<and> retrieve_descriptors b64decode_QUJD Some
        (lookups [Returns (1 / 100) [KStr ''target_meta'' \<mapsto> JStr ''QUJD''], Blocks])
        ''target_meta'' 0
      = Returned (Some ''ABC'', 1 / 100, [GetMetadata ''target_meta''])"
  using retrieve_polls_until_found_or_timed_out
    [where key = "''target_meta''" and timeout = "1 / 2" and now = 0
       and b64decode = b64decode_QUJD and add_remote_agent = "\<lambda>metadata. ''target''"
       and remote = None and e = silent_env
       and e' = publishing_env and pre = "[Returns 0 Map.empty, Returns (1 / 50) Map.empty]"
       and d = "1 / 100" and md = "[KStr ''target_meta'' \<mapsto> JStr ''QUJD'']"
       and rest = "[Blocks]" and s = "''QUJD''" and metadata = "''ABC''"
       and name = "''target''" and b = silent_env and ?d0.0 = "1 / 100"
       and b' = publishing_env and pre' = "[Returns 0 False]" and d' = "1 / 100"
       and rest' = "[Blocks]"
       and g = silent_env and dg = "1 / 50" and mdg = Map.empty
       and restg = "[Returns (1 / 50) Map.empty, Returns (1 / 50) Map.empty,
                     Returns (1 / 50) Map.empty, Returns (1 / 50) Map.empty]"
       and deserialize_descs = Some
       and g' = "lookups [Returns (1 / 100) [KStr ''target_meta'' \<mapsto> JStr ''QUJD''], Blocks]"
       and dg' = "1 / 100" and mdg' = "[KStr ''target_meta'' \<mapsto> JStr ''QUJD'']"
       and restg' = "[Blocks]" and s' = "''QUJD''" and serialized = "''ABC''"]
  by (simp add: retrieve_eval)

text \<open>
  What the claim's wording does not survive. With a timeout of 0.55 s and lookups that
  take no time the retrieval returns at 0.6 s, after the timeout. A lookup that raises
  (the connection is refused) ends the retrieval with the exception, and one that never
  returns blocks it. A key that is published with an empty value is polled for until the
  timeout. And \<open>retrieve_descriptors\<close> misses a key that is published by the time of
  a second lookup, which \<open>retrieve_agent_metadata\<close> finds; a lookup that never returns
  blocks it as well.
\<close>

theorem retrieve_overruns_raises_or_blocks:
  "retrieve_agent_metadata b64decode_QUJD (\<lambda>metadata. ''target'')
     (lookups [Returns 0 Map.empty, Returns 0 Map.empty, Returns 0 Map.empty,
               Returns 0 Map.empty, Returns 0 Map.empty, Returns 0 Map.empty])
     ''target_meta'' (11 / 20) False None 0
     = Returned (None, 3 / 5, poll_trace (GetMetadata ''target_meta'') 6)
   \<and> (11 / 20 :: rat) < 3 / 5
   \<and> retrieve_agent_metadata b64decode_QUJD (\<lambda>metadata. ''target'')
        (lookups [Raises 0 OSError]) ''target_meta'' (1 / 2) False None 0
      = Raised OSError (0, [GetMetadata ''target_meta''])
   \<and> retrieve_agent_metadata b64decode_QUJD (\<lambda>metadata. ''target'')
        (lookups [Returns 0 Map.empty, Blocks]) ''target_meta'' (1 / 2) False None 0
      = Pending (1 / 10,
          [GetMetadata ''target_meta'', Sleep (1 / 10), GetMetadata ''target_meta''])
   \<and> retrieve_agent_metadata b64decode_QUJD (\<lambda>metadata. ''target'')
        (lookups [Returns 0 [KStr ''target_meta'' \<mapsto> JStr ''''],
                  Returns 0 [KStr ''target_meta'' \<mapsto> JStr ''''],
                  Returns 0 [KStr ''target_meta'' \<mapsto> JStr ''''],
                  Returns 0 [KStr ''target_meta'' \<mapsto> JStr ''''],
                  Returns 0 [KStr ''target_meta'' \<mapsto> JStr '''']])
        ''target_meta'' (1 / 2) False None 0
      = Returned (None, 1 / 2, poll_trace (GetMetadata ''target_meta'') 5)
   \<and> retrieve_descriptors b64decode_QUJD Some
        (lookups [Returns 0 Map.empty, Returns 0 [KStr ''target_meta'' \<mapsto> JStr ''QUJD'']])
        ''target_meta'' 0
      = Returned (None, 0, [GetMetadata ''target_meta''])
   \<and> retrieve_agent_metadata b64decode_QUJD (\<lambda>metadata. ''target'')
        (lookups [Returns 0 Map.empty, Returns 0 [KStr ''target_meta'' \<mapsto> JStr ''QUJD'']])
        ''target_meta'' (1 / 2) False None 0
      = Returned (Some ''target'', 1 / 10,
          [GetMetadata ''target_meta'', Sleep (1 / 10), GetMetadata ''target_meta''])
   \<and> retrieve_descriptors b64decode_QUJD Some (lookups [Blocks]) ''target_meta'' 0
      = Pending (0, [GetMetadata ''target_meta''])"
  by (simp add: retrieve_eval)

section \<open>The consumer loop\<close>

lemma poll_header_returns_expected:
  "poll_header off ws st = Returned (seq, st1) \<Longrightarrow> seq = int (transfers_received st1)"
  by (induction ws arbitrary: st) (auto simp add: Let_def split: if_splits)

lemma poll_header_frame:
  "sequence_mismatches (reached_snd (poll_header off ws st)) = sequence_mismatches st
   \<and> transfers_received (reached_snd (poll_header off ws st)) = transfers_received st
   \<and> progress_updates_sent (reached_snd (poll_header off ws st)) = progress_updates_sent st
   \<and> filter is_send (trace (reached_snd (poll_header off ws st))) = filter is_send (trace st)"
  by (induction ws arbitrary: st) (simp_all add: Let_def)

lemma receiver_iteration_mismatches:
  "sequence_mismatches (reached (receiver_iteration cfg name base st)) = sequence_mismatches st"
proof -
  let ?off = "base + transfers_received st mod NUM_BUFFERS cfg * BUFFER_ENTRY_SIZE cfg"
  show ?thesis
  proof (cases "poll_header ?off (remote_writes st) st")
    case (Pending s)
    with poll_header_frame [of ?off "remote_writes st" st] show ?thesis
      by (simp add: receiver_iteration_def Let_def)
  next
    case (Raised e s)
    with poll_header_frame [of ?off "remote_writes st" st] show ?thesis
      by (simp add: receiver_iteration_def Let_def)
  next
    case (Returned r)
    obtain seq st1 where r: "r = (seq, st1)" by (cases r)
    from Returned r have "seq = int (transfers_received st1)"
      using poll_header_returns_expected by blast
    with Returned r poll_header_frame [of ?off "remote_writes st" st] show ?thesis
      by (simp add: receiver_iteration_def Let_def split: sum.splits)
  qed
qed

lemma receiver_loop_mismatches:
  "sequence_mismatches (reached (receiver_loop cfg name base st)) = sequence_mismatches st"
proof (induction cfg name base st rule: receiver_loop.induct)
  case (1 cfg name base st)
  show ?case
  proof (cases "transfers_received st < NUM_TRANSFERS cfg")
    case False
    then show ?thesis by (subst receiver_loop.simps) simp
  next
    case True
    show ?thesis
    proof (cases "receiver_iteration cfg name base st")
      case (Returned st')
      with True "1.IH" [OF True Returned] receiver_iteration_mismatches [of cfg name base st]
      show ?thesis by (subst receiver_loop.simps) simp
    next
      case (Pending s)
      with True receiver_iteration_mismatches [of cfg name base st]
      show ?thesis by (subst receiver_loop.simps) simp
    next
      case (Raised e s)
      with True receiver_iteration_mismatches [of cfg name base st]
      show ?thesis by (subst receiver_loop.simps) simp
    qed
  qed
qed

text \<open>
  The mismatch counter is never incremented: the poll loop leaves only with the expected
  value, so the check after it cannot fail, whatever the header held in between.
\<close>

lemma receiver_never_counts_mismatch:
  "sequence_mismatches (reached (receiver_main cfg name memory_addr m writes)) = 0"
  by (simp add: receiver_main_def Let_def receiver_loop_mismatches receiver_start_def
      split: sum.splits)

lemmas receiver_eval =
  receiver_main_def receiver_start_def receiver_loop.simps receiver_iteration_def
  small_config_def BUFFER_BASE_OFFSET_def BUFFER_ENTRY_SIZE_def Let_def
  memory_eval str_nat.simps digit_char_def

lemma upt_0_2: "[0..<2] = [0, 1]"
  by (simp add: upt_rec)

text \<open>
  C1 fails on the code. The sender has wrapped: the header of slot 0 holds sequence number
  2 where the receiver expects 0. The receiver reads 2, does not count it, and keeps
  polling; when 0 shows up it goes on, and the run ends with \<open>sequence_mismatches = 0\<close>.
  If the header keeps the overwritten value the receiver polls for ever, again without
  counting.
\<close>

theorem overrun_read_is_not_counted:
  "(case receiver_main small_config ''sender'' 0 (\<lambda>_. 0) [[(2, 2)], [(2, 0)], [(18, 1)]] of
      Returned st \<Rightarrow>
        trace st = [ReadHeader 2 2, ReadHeader 2 0, WriteHeader 2 SENTINEL,
                    SendNotif ''sender'' ''P:1'',
                    ReadHeader 18 1, WriteHeader 18 SENTINEL, SendNotif ''sender'' ''P:2'']
        \<and> transfers_received st = 2 \<and> sequence_mismatches st = 0
    | Pending st \<Rightarrow> False
    | Raised e st \<Rightarrow> False)
   \<and> (case receiver_main small_config ''sender'' 0 (\<lambda>_. 0) [[(2, 2)], [], []] of
      Pending st \<Rightarrow>
        trace st = [ReadHeader 2 2, ReadHeader 2 2, ReadHeader 2 2]
        \<and> transfers_received st = 0 \<and> sequence_mismatches st = 0
    | Returned st \<Rightarrow> False
    | Raised e st \<Rightarrow> False)"
  by (simp add: receiver_eval upt_0_2)

subsection \<open>Progress notifications\<close>

lemma upt_split: "a \<le> b \<Longrightarrow> b \<le> c \<Longrightarrow> [a..<c] = [a..<b] @ [b..<c]"
  by (metis le_Suc_ex upt_add_eq_append)

lemma receiver_iteration_sends:
  "filter is_send (trace (reached (receiver_iteration cfg name base st)))
     = filter is_send (trace st) @
       map (\<lambda>i. SendNotif name (''P:'' @ str_nat (i + 1)))
         (filter (\<lambda>i. (i + 1) mod PROGRESS_UPDATE_INTERVAL cfg = 0)
            [transfers_received st..<transfers_received (reached (receiver_iteration cfg name base st))])
   \<and> transfers_received st \<le> transfers_received (reached (receiver_iteration cfg name base st))
   \<and> progress_updates_sent (reached (receiver_iteration cfg name base st))
     = progress_updates_sent st +
       length (filter (\<lambda>i. (i + 1) mod PROGRESS_UPDATE_INTERVAL cfg = 0)
            [transfers_received st..<transfers_received (reached (receiver_iteration cfg name base st))])"
proof -
  let ?off = "base + transfers_received st mod NUM_BUFFERS cfg * BUFFER_ENTRY_SIZE cfg"
  note frame = poll_header_frame [of ?off "remote_writes st" st]
  show ?thesis
  proof (cases "poll_header ?off (remote_writes st) st")
    case (Pending s)
    with frame show ?thesis
      by (simp add: receiver_iteration_def Let_def)
  next
    case (Raised e s)
    with frame show ?thesis
      by (simp add: receiver_iteration_def Let_def)
  next
    case (Returned r)
    obtain seq st1 where r: "r = (seq, st1)" by (cases r)
    with Returned frame show ?thesis
      by (simp add: receiver_iteration_def Let_def split: sum.splits)
  qed
qed

lemma receiver_loop_sends:
  "filter is_send (trace (reached (receiver_loop cfg name base st)))
     = filter is_send (trace st) @
       map (\<lambda>i. SendNotif name (''P:'' @ str_nat (i + 1)))
         (filter (\<lambda>i. (i + 1) mod PROGRESS_UPDATE_INTERVAL cfg = 0)
            [transfers_received st..<transfers_received (reached (receiver_loop cfg name base st))])
   \<and> transfers_received st \<le> transfers_received (reached (receiver_loop cfg name base st))
   \<and> progress_updates_sent (reached (receiver_loop cfg name base st))
     = progress_updates_sent st +
       length (filter (\<lambda>i. (i + 1) mod PROGRESS_UPDATE_INTERVAL cfg = 0)
            [transfers_received st..<transfers_received (reached (receiver_loop cfg name base st))])"
proof (induction cfg name base st rule: receiver_loop.induct)
  case (1 cfg name base st)
  note it = receiver_iteration_sends [of cfg name base st]
  show ?case
  proof (cases "transfers_received st < NUM_TRANSFERS cfg")
    case False
    then show ?thesis by (subst (1 2 3 4 5) receiver_loop.simps) simp
  next
    case True
    show ?thesis
    proof (cases "receiver_iteration cfg name base st")
      case (Pending s)
      with True it show ?thesis by (subst (1 2 3 4 5) receiver_loop.simps) simp
    next
      case (Raised e s)
      with True it show ?thesis by (subst (1 2 3 4 5) receiver_loop.simps) simp
    next
      case (Returned st')
      have loop: "receiver_loop cfg name base st = receiver_loop cfg name base st'"
        using True Returned by (subst receiver_loop.simps) simp
      note ih = "1.IH" [OF True Returned]
      from it Returned have le1: "transfers_received st \<le> transfers_received st'" by simp
      from ih have le2: "transfers_received st'
          \<le> transfers_received (reached (receiver_loop cfg name base st'))" by simp
      from it Returned ih show ?thesis
        unfolding loop upt_split [OF le1 le2] by simp
    qed
  qed
qed

lemma receiver_loop_returns_all:
  "receiver_loop cfg name base st = Returned st'
     \<Longrightarrow> transfers_received st \<le> NUM_TRANSFERS cfg
     \<Longrightarrow> transfers_received st' = NUM_TRANSFERS cfg"
proof (induction cfg name base st rule: receiver_loop.induct)
  case (1 cfg name base st)
  show ?case
  proof (cases "transfers_received st < NUM_TRANSFERS cfg")
    case False
    with "1.prems" show ?thesis by (subst (asm) receiver_loop.simps) simp
  next
    case True
    with "1.prems"(1) obtain st1
      where it: "receiver_iteration cfg name base st = Returned st1"
        and loop: "receiver_loop cfg name base st1 = Returned st'"
      by (subst (asm) receiver_loop.simps) (auto split: outcome.splits)
    from receiver_iteration_count [OF it] True
    have "transfers_received st1 \<le> NUM_TRANSFERS cfg" by simp
    from "1.IH" [OF True it loop this] show ?thesis .
  qed
qed

text \<open>
  \<open>str_nat\<close> is the decimal rendering: its characters are digits, there is at least
  one, the first is not \<open>0\<close> unless the number is 0, and reading them as a base-10
  numeral gives the number back.
\<close>

lemma digit_char_digit:
  assumes "d < 10"
  shows "(of_char (digit_char d) :: nat) = 48 + d"
    and "digit_char d \<in> set ''0123456789''"
    and "(digit_char d = CHR ''0'') = (d = 0)"
proof -
  from assms have "d = 0 \<or> d = 1 \<or> d = 2 \<or> d = 3 \<or> d = 4 \<or> d = 5 \<or> d = 6 \<or> d = 7
      \<or> d = 8 \<or> d = 9"
    by arith
  then show "(of_char (digit_char d) :: nat) = 48 + d"
    and "digit_char d \<in> set ''0123456789''"
    and "(digit_char d = CHR ''0'') = (d = 0)"
    by (auto simp add: digit_char_def)
qed

lemma str_nat_decimal:
  "foldl (\<lambda>acc c. acc * 10 + (of_char c - 48)) 0 (str_nat n) = n
   \<and> set (str_nat n) \<subseteq> set ''0123456789''
   \<and> str_nat n \<noteq> []
   \<and> (0 < n \<longrightarrow> hd (str_nat n) \<noteq> CHR ''0'')"
proof (induction n rule: str_nat.induct)
  case (1 n)
  show ?case
  proof (cases "n < 10")
    case True
    then have eq: "str_nat n = [digit_char n]"
      by (simp add: str_nat.simps)
    from digit_char_digit [OF True] show ?thesis
      unfolding eq by simp
  next
    case False
    then have eq: "str_nat n = str_nat (n div 10) @ [digit_char (n mod 10)]"
      by (simp add: str_nat.simps)
    have d: "n mod 10 < 10" by simp
    from False have pos: "0 < n div 10" by simp
    from "1.IH" [OF False] pos
    have ih: "foldl (\<lambda>acc c. acc * 10 + (of_char c - 48)) 0 (str_nat (n div 10)) = n div 10"
      "set (str_nat (n div 10)) \<subseteq> set ''0123456789''"
      "str_nat (n div 10) \<noteq> []"
      "hd (str_nat (n div 10)) \<noteq> CHR ''0''"
      by simp_all
    have "foldl (\<lambda>acc c. acc * 10 + (of_char c - 48)) 0 (str_nat n)
        = n div 10 * 10 + (of_char (digit_char (n mod 10)) - 48)"
      unfolding eq by (simp add: ih(1))
    also have "\<dots> = n"
      by (simp add: digit_char_digit(1) [OF d])
    finally have v: "foldl (\<lambda>acc c. acc * 10 + (of_char c - 48)) 0 (str_nat n) = n" .
    have s: "set (str_nat n) \<subseteq> set ''0123456789''"
      unfolding eq using ih(2) digit_char_digit(2) [OF d] by simp
    have h: "hd (str_nat n) \<noteq> CHR ''0''"
      unfolding eq using ih(3) ih(4) by (simp add: hd_append)
    from v s h show ?thesis
      unfolding eq by simp
  qed
qed

text \<open>
  C8. In every run of the receiver, returned or not, the notifications sent are exactly
  \<open>P:<i+1>\<close> for the accepted transfer indices \<open>i\<close> with \<open>i + 1\<close> a multiple of the
  progress interval, one each and in order; \<open>progress_updates_sent\<close> counts them. A run
  that returns has accepted all \<open>NUM_TRANSFERS\<close> transfers. The text after \<open>P:\<close> is
  the decimal numeral of the count: digits only, no leading zero, and of that value.
\<close>

theorem progress_sent_every_interval:
  "filter is_send (trace (reached (receiver_main cfg name memory_addr m writes)))
     = map (\<lambda>i. SendNotif name (''P:'' @ str_nat (i + 1)))
         (filter (\<lambda>i. (i + 1) mod PROGRESS_UPDATE_INTERVAL cfg = 0)
            [0..<transfers_received (reached (receiver_main cfg name memory_addr m writes))])
   \<and> progress_updates_sent (reached (receiver_main cfg name memory_addr m writes))
     = length (filter (\<lambda>i. (i + 1) mod PROGRESS_UPDATE_INTERVAL cfg = 0)
            [0..<transfers_received (reached (receiver_main cfg name memory_addr m writes))])
   \<and> (returned (receiver_main cfg name memory_addr m writes) \<longrightarrow>
        transfers_received (reached (receiver_main cfg name memory_addr m writes))
          = NUM_TRANSFERS cfg)
   \<and> foldl (\<lambda>acc c. acc * 10 + (of_char c - 48)) 0 (str_nat n) = n
   \<and> set (str_nat n) \<subseteq> set ''0123456789''
   \<and> str_nat n \<noteq> []
   \<and> (0 < n \<longrightarrow> hd (str_nat n) \<noteq> CHR ''0'')"
proof (cases "init_headers cfg (memory_addr + BUFFER_BASE_OFFSET) [0..<NUM_BUFFERS cfg] m")
  case (Inl e)
  then show ?thesis
    using str_nat_decimal [of n] by (simp add: receiver_main_def Let_def receiver_start_def)
next
  case (Inr m')
  let ?st = "receiver_start memory_addr m' writes"
  have main: "receiver_main cfg name memory_addr m writes
      = receiver_loop cfg name (memory_addr + BUFFER_BASE_OFFSET) ?st"
    using Inr by (simp add: receiver_main_def Let_def)
  have ret: "transfers_received (reached (receiver_loop cfg name (memory_addr + BUFFER_BASE_OFFSET) ?st))
      = NUM_TRANSFERS cfg"
    if "returned (receiver_loop cfg name (memory_addr + BUFFER_BASE_OFFSET) ?st)"
  proof -
    from that obtain st' where
      r: "receiver_loop cfg name (memory_addr + BUFFER_BASE_OFFSET) ?st = Returned st'"
      by (cases "receiver_loop cfg name (memory_addr + BUFFER_BASE_OFFSET) ?st") simp_all
    from receiver_loop_returns_all [OF r] r show ?thesis
      by (simp add: receiver_start_def)
  qed
  from receiver_loop_sends [of cfg name "memory_addr + BUFFER_BASE_OFFSET" ?st] ret
  show ?thesis
    unfolding main using str_nat_decimal [of n] by (simp add: receiver_start_def)
qed

text \<open>
  Sixteen transfers through a ring of two slots, with the interval 16 and the threshold 60
  that the module computes from its 64 buffers: one notification, \<open>P:16\<close>.
\<close>

lemma upt_0_16: "[0..<16] = [0, 1, 2, 3, 4, 5, 6, 7, 8, 9, 10, 11, 12, 13, 14, 15]"
  by (simp add: upt_rec)

lemma sixteen_transfers_run:
  "(case receiver_main
       \<lparr>NUM_BUFFERS = 2, BUFFER_SIZE = 16, NUM_TRANSFERS = 16,
        PROGRESS_UPDATE_INTERVAL = 16, BACKPRESSURE_THRESHOLD = 60\<rparr>
       ''sender'' 0 (\<lambda>_. 0)
       [[(2, 0)], [(18, 1)], [], [(2, 2), (18, 3)], [], [(2, 4)], [(18, 5)], [(2, 6)],
        [(18, 7)], [(2, 8)], [(18, 9)], [(2, 10)], [(18, 11)], [(2, 12)], [(18, 13)],
        [(2, 14)], [(18, 15)]] of
      Returned st \<Rightarrow> transfers_received st = 16 \<and> progress_updates_sent st = 1
    | Pending st \<Rightarrow> False
    | Raised e st \<Rightarrow> False)"
  by (simp add: receiver_eval upt_0_2)

theorem progress_sent_every_interval_witness:
  "returned (receiver_main
       \<lparr>NUM_BUFFERS = 2, BUFFER_SIZE = 16, NUM_TRANSFERS = 16,
        PROGRESS_UPDATE_INTERVAL = 16, BACKPRESSURE_THRESHOLD = 60\<rparr>
       ''sender'' 0 (\<lambda>_. 0)
       [[(2, 0)], [(18, 1)], [], [(2, 2), (18, 3)], [], [(2, 4)], [(18, 5)], [(2, 6)],
        [(18, 7)], [(2, 8)], [(18, 9)], [(2, 10)], [(18, 11)], [(2, 12)], [(18, 13)],
        [(2, 14)], [(18, 15)]])
   \<and> filter is_send (trace (reached (receiver_main
       \<lparr>NUM_BUFFERS = 2, BUFFER_SIZE = 16, NUM_TRANSFERS = 16,
        PROGRESS_UPDATE_INTERVAL = 16, BACKPRESSURE_THRESHOLD = 60\<rparr>
       ''sender'' 0 (\<lambda>_. 0)
       [[(2, 0)], [(18, 1)], [], [(2, 2), (18, 3)], [], [(2, 4)], [(18, 5)], [(2, 6)],
        [(18, 7)], [(2, 8)], [(18, 9)], [(2, 10)], [(18, 11)], [(2, 12)], [(18, 13)],
        [(2, 14)], [(18, 15)]])))
     = [SendNotif ''sender'' ''P:16'']
   \<and> (0::nat) < 1000 \<and> str_nat 1000 = ''1000''
   \<and> foldl (\<lambda>acc c. acc * 10 + (of_char c - 48)) 0 ''1000'' = (1000::nat)
   \<and> hd ''1000'' \<noteq> CHR ''0''"
  using progress_sent_every_interval
      [of "\<lparr>NUM_BUFFERS = 2, BUFFER_SIZE = 16, NUM_TRANSFERS = 16,
            PROGRESS_UPDATE_INTERVAL = 16, BACKPRESSURE_THRESHOLD = 60\<rparr>"
        "''sender''" 0 "\<lambda>_. 0"
        "[[(2, 0)], [(18, 1)], [], [(2, 2), (18, 3)], [], [(2, 4)], [(18, 5)], [(2, 6)],
          [(18, 7)], [(2, 8)], [(18, 9)], [(2, 10)], [(18, 11)], [(2, 12)], [(18, 13)],
          [(2, 14)], [(18, 15)]]" 1000]
    sixteen_transfers_run
  by (auto split: outcome.splits simp add: upt_0_16 str_nat.simps digit_char_def)

section \<open>The producer loop\<close>

subsection \<open>Traces\<close>

lemma progress_values_append:
  "progress_values (xs @ ys) = progress_values xs @ progress_values ys"
  by (induction xs rule: progress_values.induct) simp_all

lemma progress_at_snoc_set [simp]: "progress_at (es @ [SetProgress p]) = p"
  by (simp add: progress_at_def progress_values_append)

lemma gated_append:
  "gated K rp (xs @ ys) = (gated K rp xs \<and> gated K (last (rp # progress_values xs)) ys)"
  by (induction K rp xs rule: gated.induct) simp_all

lemma strict_sorted_le_last:
  "sorted_wrt (<) xs \<Longrightarrow> x \<in> set xs \<Longrightarrow> x \<le> last (xs :: int list)"
proof (induction xs)
  case Nil
  then show ?case by simp
next
  case (Cons y ys)
  show ?case
  proof (cases "ys = []")
    case True
    with Cons.prems show ?thesis by simp
  next
    case False
    then have "last ys \<in> set ys" by simp
    with Cons.prems(1) have "y < last ys" by simp
    moreover have "x \<le> last ys" if "x \<in> set ys"
      using Cons.IH that Cons.prems(1) by simp
    ultimately show ?thesis using Cons.prems(2) False by auto
  qed
qed

lemma strict_sorted_snoc:
  assumes "sorted_wrt (<) (x # xs)" and "last (x # xs) < (p :: int)"
  shows "sorted_wrt (<) (x # xs @ [p])"
proof -
  have "\<forall>y \<in> set (x # xs). y < p"
    using strict_sorted_le_last [OF assms(1)] assms(2) by fastforce
  with assms(1) show ?thesis
    using sorted_wrt_append [of "(<)" "x # xs" "[p]"] by simp
qed

subsection \<open>Monotonic progress\<close>

lemma progress_inv_set:
  assumes "progress_inv st" and "receiver_progress st < p"
  shows "progress_inv (st\<lparr>receiver_progress := p, trace := trace st @ [SetProgress p]\<rparr>)"
  using assms strict_sorted_snoc [of 0 "progress_values (trace st)" p]
  by (simp add: progress_inv_def progress_values_append progress_at_def)

lemma progress_inv_other:
  assumes "progress_inv st" and "progress_values [e] = []"
    and "receiver_progress st' = receiver_progress st" and "trace st' = trace st @ [e]"
  shows "progress_inv st'"
  using assms by (simp add: progress_inv_def progress_values_append progress_at_def)

lemma apply_progress_inv:
  "progress_inv st \<Longrightarrow> progress_inv (reached (apply_progress py_int msgs st))"
  by (induction msgs arbitrary: st) (simp_all add: progress_inv_set split: option.splits)

lemma apply_progress_mono:
  "receiver_progress st \<le> receiver_progress (reached (apply_progress py_int msgs st))"
proof (induction msgs arbitrary: st)
  case Nil
  then show ?case by simp
next
  case (Cons msg msgs)
  show ?case
  proof (cases "take 2 msg = ''P:''")
    case False
    with Cons.IH [of st] show ?thesis by simp
  next
    case True
    show ?thesis
    proof (cases "py_int (drop 2 msg)")
      case None
      with True show ?thesis by simp
    next
      case (Some p)
      show ?thesis
      proof (cases "p > receiver_progress st")
        case False
        with True Some Cons.IH [of st] show ?thesis by simp
      next
        case gt: True
        from Cons.IH [of "st\<lparr>receiver_progress := p, trace := trace st @ [SetProgress p]\<rparr>"]
        show ?thesis using True Some gt by simp
      qed
    qed
  qed
qed

subsection \<open>The invariant through one iteration\<close>

lemma ahead_values_append:
  "ahead_values (xs @ ys) = ahead_values xs @ ahead_values ys"
  by (induction xs rule: ahead_values.induct) simp_all

lemma neutral_events:
  assumes "\<forall>e \<in> set es. \<not> is_transfer e \<and> progress_values [e] = [] \<and> ahead_values [e] = []"
  shows "progress_values es = [] \<and> gated K rp es \<and> ahead_values es = []"
  using assms
proof (induction es)
  case Nil
  then show ?case by simp
next
  case (Cons e es)
  then show ?case by (cases e) simp_all
qed

lemma gate_inv_neutral:
  assumes "gate_inv cfg st"
    and "trace st' = trace st @ es"
    and "\<forall>e \<in> set es. \<not> is_transfer e \<and> progress_values [e] = [] \<and> ahead_values [e] = []"
    and "transfers_sent st' = transfers_sent st"
    and "receiver_progress st' = receiver_progress st"
    and "max_ahead st' = max_ahead st"
  shows "gate_inv cfg st'"
  using assms neutral_events [OF assms(3)]
  by (simp add: gate_inv_def progress_inv_def progress_at_def progress_values_append gated_append
      ahead_values_append)

lemma gate_inv_ahead:
  assumes "gate_inv cfg st"
  shows "gate_inv cfg
     (st\<lparr>trace := trace st @ [AheadCount (int (transfers_sent st) - receiver_progress st)]\<rparr>)"
  using assms
  by (simp add: gate_inv_def progress_inv_def progress_at_def progress_values_append gated_append
      ahead_values_append)

lemma gate_inv_set:
  assumes "gate_inv cfg st" and "receiver_progress st < p"
  shows "gate_inv cfg (st\<lparr>receiver_progress := p, trace := trace st @ [SetProgress p]\<rparr>)"
proof -
  from assms have "progress_inv (st\<lparr>receiver_progress := p, trace := trace st @ [SetProgress p]\<rparr>)"
    by (simp add: gate_inv_def progress_inv_set)
  with assms show ?thesis
    by (simp add: gate_inv_def gated_append ahead_values_append)
qed

lemma apply_progress_gate:
  "gate_inv cfg st \<Longrightarrow> gate_inv cfg (reached (apply_progress py_int msgs st))"
  by (induction msgs arbitrary: st) (simp_all add: gate_inv_set split: option.splits)

lemma drain_progress_gate:
  "gate_inv cfg st \<Longrightarrow> gate_inv cfg (reached (drain_progress py_int receiver_name n st))"
  by (simp add: drain_progress_def apply_progress_gate split: option.splits)

lemma gate_inv_pending_notifs:
  "gate_inv cfg st \<Longrightarrow> gate_inv cfg (st\<lparr>pending_notifs := ns\<rparr>)"
  by (rule gate_inv_neutral [where es = "[]"]) simp_all

lemma backpressure_wait_gate:
  assumes "gate_inv cfg st"
  shows "gate_inv cfg (reached (backpressure_wait py_int cfg receiver_name ns st))
     \<and> (\<forall>st'. backpressure_wait py_int cfg receiver_name ns st = Returned st' \<longrightarrow>
          int (transfers_sent st') - receiver_progress st' < BACKPRESSURE_THRESHOLD cfg)"
  using assms
proof (induction ns arbitrary: st)
  case Nil
  then show ?case by (simp add: gate_inv_pending_notifs)
next
  case (Cons n ns)
  let ?d = "drain_progress py_int receiver_name n (st\<lparr>pending_notifs := ns\<rparr>)"
  from Cons.prems have inv: "gate_inv cfg (reached ?d)"
    by (intro drain_progress_gate gate_inv_pending_notifs)
  show ?case
  proof (cases ?d)
    case (Pending s)
    with inv show ?thesis by simp
  next
    case (Raised e s)
    with inv show ?thesis by simp
  next
    case (Returned st1)
    with inv have inv1: "gate_inv cfg st1" by simp
    let ?st2 = "st1\<lparr>trace := trace st1
        @ [AheadCount (int (transfers_sent st1) - receiver_progress st1)]\<rparr>"
    have inv2: "gate_inv cfg ?st2" by (rule gate_inv_ahead [OF inv1])
    show ?thesis
    proof (cases "int (transfers_sent st1) - receiver_progress st1 \<ge> BACKPRESSURE_THRESHOLD cfg")
      case False
      with Returned inv2 show ?thesis by (simp add: Let_def)
    next
      case True
      let ?st3 = "?st2\<lparr>backpressure_waits := backpressure_waits ?st2 + 1,
          trace := trace ?st2 @ [Sleep (1 / 10000)]\<rparr>"
      have "gate_inv cfg ?st3"
        by (rule gate_inv_neutral [OF inv2, where es = "[Sleep (1 / 10000)]"]) simp_all
      from Cons.IH [OF this] Returned True show ?thesis by (simp add: Let_def)
    qed
  qed
qed

lemma backpressure_check_gate:
  assumes "gate_inv cfg st"
  shows "gate_inv cfg (reached (backpressure_check py_int cfg receiver_name st))
     \<and> (\<forall>st'. backpressure_check py_int cfg receiver_name st = Returned st' \<longrightarrow>
          int (transfers_sent st') - receiver_progress st' < BACKPRESSURE_THRESHOLD cfg)"
proof -
  let ?ahead = "int (transfers_sent st) - receiver_progress st"
  let ?st0 = "st\<lparr>trace := trace st @ [AheadCount ?ahead]\<rparr>"
  let ?st1 = "if ?ahead > max_ahead ?st0 then ?st0\<lparr>max_ahead := ?ahead\<rparr> else ?st0"
  have inv0: "gate_inv cfg ?st0" by (rule gate_inv_ahead [OF assms])
  then have inv1: "gate_inv cfg ?st1"
    by (simp add: gate_inv_def progress_inv_def)
  show ?thesis
  proof (cases "?ahead \<ge> BACKPRESSURE_THRESHOLD cfg")
    case False
    with inv1 show ?thesis
      by (simp add: backpressure_check_def Let_def)
  next
    case True
    have "gate_inv cfg (?st1\<lparr>backpressure_checks := backpressure_checks ?st1 + 1\<rparr>)"
      by (rule gate_inv_neutral [OF inv1, where es = "[]"]) simp_all
    from backpressure_wait_gate [OF this, of py_int receiver_name "pending_notifs ?st1"] True
    show ?thesis
      by (simp add: backpressure_check_def Let_def)
  qed
qed

lemma wait_xfer_gate:
  assumes "gate_inv cfg st"
  shows "gate_inv cfg (reached (wait_xfer slot ps st))
     \<and> transfers_sent (reached (wait_xfer slot ps st)) = transfers_sent st
     \<and> receiver_progress (reached (wait_xfer slot ps st)) = receiver_progress st"
  using assms
proof (induction ps arbitrary: st)
  case Nil
  have "gate_inv cfg (st\<lparr>pending_polls := []\<rparr>)"
    by (rule gate_inv_neutral [OF Nil, where es = "[]"]) simp_all
  then show ?case by simp
next
  case (Cons p ps)
  let ?st1 = "st\<lparr>pending_polls := ps, trace := trace st @ [CheckXferState slot p]\<rparr>"
  have inv1: "gate_inv cfg ?st1"
    by (rule gate_inv_neutral [OF Cons.prems, where es = "[CheckXferState slot p]"]) simp_all
  show ?case
  proof (cases "p = Polled PROC")
    case True
    with Cons.IH [OF inv1] show ?thesis by (simp add: Let_def)
  next
    case False
    with inv1 show ?thesis by (simp add: Let_def)
  qed
qed

lemma issue_transfer_gate:
  assumes "gate_inv cfg st"
    and "int (transfers_sent st) - receiver_progress st < BACKPRESSURE_THRESHOLD cfg"
  shows "gate_inv cfg (reached_snd (issue_transfer py_int cfg receiver_name buffer_idx st))"
proof (cases "pending_xfers st")
  case Nil
  with assms(1) show ?thesis by (simp add: issue_transfer_def)
next
  case (Cons state xs)
  let ?st1 = "st\<lparr>pending_xfers := xs,
      trace := trace st @ [Transfer (transfers_sent st) buffer_idx state]\<rparr>"
  let ?st2 = "?st1\<lparr>transfers_sent := transfers_sent ?st1 + 1\<rparr>"
  from assms have inv1: "gate_inv cfg ?st1"
    by (simp add: gate_inv_def progress_inv_def progress_at_def progress_values_append
        gated_append ahead_values_append)
  from assms have inv2: "gate_inv cfg ?st2"
    by (simp add: gate_inv_def progress_inv_def progress_at_def progress_values_append
        gated_append ahead_values_append)
  show ?thesis
  proof (cases "state = ERR")
    case True
    with Cons inv1 show ?thesis by (simp add: issue_transfer_def Let_def)
  next
    case False
    show ?thesis
    proof (cases "PROGRESS_UPDATE_INTERVAL cfg = 0")
      case True
      with Cons False inv2 show ?thesis by (simp add: issue_transfer_def Let_def)
    next
      case P: False
      show ?thesis
      proof (cases "transfers_sent ?st2 mod PROGRESS_UPDATE_INTERVAL cfg = 0")
        case False
        with Cons \<open>state \<noteq> ERR\<close> P inv2 show ?thesis
          by (simp add: issue_transfer_def Let_def)
      next
        case True
        show ?thesis
        proof (cases "pending_notifs st")
          case Nil
          with Cons \<open>state \<noteq> ERR\<close> P True inv2 show ?thesis
            by (simp add: issue_transfer_def Let_def)
        next
          case (Cons n ns)
          have "gate_inv cfg (?st2\<lparr>pending_notifs := ns\<rparr>)"
            by (rule gate_inv_pending_notifs [OF inv2])
          from drain_progress_gate [OF this, of py_int receiver_name n]
          have "gate_inv cfg (reached (drain_progress py_int receiver_name n
              (?st2\<lparr>pending_notifs := ns\<rparr>)))" .
          with Cons \<open>pending_xfers st = state # xs\<close> \<open>state \<noteq> ERR\<close> P True
          show ?thesis
            by (cases "drain_progress py_int receiver_name n (?st2\<lparr>pending_notifs := ns\<rparr>)")
               (simp_all add: issue_transfer_def Let_def)
        qed
      qed
    qed
  qed
qed

lemma sender_iteration_gate:
  assumes "gate_inv cfg st"
  shows "gate_inv cfg (reached_snd (sender_iteration py_int cfg receiver_name buffers_addr st))"
proof (cases "NUM_BUFFERS cfg = 0")
  case True
  with assms show ?thesis by (simp add: sender_iteration_def)
next
  case N: False
  let ?idx = "transfers_sent st mod NUM_BUFFERS cfg"
  note b = backpressure_check_gate [OF assms, of py_int receiver_name]
  show ?thesis
  proof (cases "backpressure_check py_int cfg receiver_name st")
    case (Pending s)
    with N b show ?thesis by (simp add: sender_iteration_def Let_def)
  next
    case (Raised e s)
    with N b show ?thesis by (simp add: sender_iteration_def Let_def)
  next
    case (Returned st1)
    with b have inv1: "gate_inv cfg st1"
      and lt1: "int (transfers_sent st1) - receiver_progress st1 < BACKPRESSURE_THRESHOLD cfg"
      by simp_all
    note w = wait_xfer_gate [OF inv1, of ?idx "pending_polls st1"]
    show ?thesis
    proof (cases "wait_xfer ?idx (pending_polls st1) st1")
      case (Pending s)
      with N Returned w show ?thesis by (simp add: sender_iteration_def Let_def)
    next
      case (Raised e s)
      with N Returned w show ?thesis by (simp add: sender_iteration_def Let_def)
    next
      case st2: (Returned st2)
      with w have inv2: "gate_inv cfg st2"
        and c2: "transfers_sent st2 = transfers_sent st1"
          "receiver_progress st2 = receiver_progress st1"
        by simp_all
      let ?off = "buffers_addr + ?idx * BUFFER_SIZE cfg"
      show ?thesis
      proof (cases "write_uint64 ?off (int (transfers_sent st2)) (local_mem st2)")
        case (Inl e)
        with N Returned st2 inv2 show ?thesis by (simp add: sender_iteration_def Let_def)
      next
        case (Inr m)
        let ?st3 = "st2\<lparr>local_mem := m,
            trace := trace st2 @ [WriteHeader ?off (int (transfers_sent st2))]\<rparr>"
        have inv3: "gate_inv cfg ?st3"
          by (rule gate_inv_neutral [OF inv2,
                where es = "[WriteHeader ?off (int (transfers_sent st2))]"]) simp_all
        have "int (transfers_sent ?st3) - receiver_progress ?st3 < BACKPRESSURE_THRESHOLD cfg"
          using lt1 c2 by simp
        from issue_transfer_gate [OF inv3 this, of py_int receiver_name ?idx]
        show ?thesis
          using N Returned st2 Inr by (simp add: sender_iteration_def Let_def)
      qed
    qed
  qed
qed

subsection \<open>The invariant through the whole run\<close>

lemma sender_loop_gate:
  "gate_inv cfg st \<Longrightarrow> gate_inv cfg (reached (sender_loop py_int cfg receiver_name buffers_addr st))"
proof (induction py_int cfg receiver_name buffers_addr st rule: sender_loop.induct)
  case (1 py_int cfg receiver_name buffers_addr st)
  note it = sender_iteration_gate [OF "1.prems", of py_int receiver_name buffers_addr]
  show ?case
  proof (cases "transfers_sent st < NUM_TRANSFERS cfg")
    case False
    with "1.prems" show ?thesis by (subst sender_loop.simps) simp
  next
    case True
    show ?thesis
    proof (cases "sender_iteration py_int cfg receiver_name buffers_addr st")
      case (Pending s)
      with True it show ?thesis by (subst sender_loop.simps) simp
    next
      case (Raised e s)
      with True it show ?thesis by (subst sender_loop.simps) simp
    next
      case (Returned r)
      obtain ctl st' where r: "r = (ctl, st')" by (cases r)
      with Returned it have inv': "gate_inv cfg st'" by simp
      show ?thesis
      proof (cases ctl)
        case Break
        with True Returned r inv' show ?thesis by (subst sender_loop.simps) simp
      next
        case Continue
        with Returned r have "sender_iteration py_int cfg receiver_name buffers_addr st
            = Returned (Continue, st')" by simp
        from "1.IH" [OF True this refl refl inv'] True Returned r Continue
        show ?thesis by (subst sender_loop.simps) simp
      qed
    qed
  qed
qed

lemma drain_xfers_gate:
  "gate_inv cfg st \<Longrightarrow> gate_inv cfg (reached (drain_xfers slots st))
     \<and> transfers_sent (reached (drain_xfers slots st)) = transfers_sent st
     \<and> receiver_progress (reached (drain_xfers slots st)) = receiver_progress st"
proof (induction slots arbitrary: st)
  case Nil
  then show ?case by simp
next
  case (Cons i slots)
  note w = wait_xfer_gate [OF Cons.prems, of i "pending_polls st"]
  show ?case
  proof (cases "wait_xfer i (pending_polls st) st")
    case (Pending s)
    with w show ?thesis by simp
  next
    case (Raised e s)
    with w show ?thesis by simp
  next
    case (Returned st1)
    with w have "gate_inv cfg st1" by simp
    from Cons.IH [OF this] w Returned show ?thesis by simp
  qed
qed

lemma sender_start_gate: "gate_inv cfg (sender_start m notifs polls xfers)"
  by (simp add: gate_inv_def progress_inv_def progress_at_def sender_start_def)

lemma sender_main_gate:
  "gate_inv cfg (reached (sender_main py_int cfg receiver_name buffers_addr m notifs polls xfers))"
proof -
  let ?loop = "sender_loop py_int cfg receiver_name buffers_addr (sender_start m notifs polls xfers)"
  note l = sender_loop_gate [OF sender_start_gate, of cfg py_int receiver_name buffers_addr
      m notifs polls xfers]
  show ?thesis
  proof (cases ?loop)
    case (Pending s)
    with l show ?thesis by (simp add: sender_main_def)
  next
    case (Raised e s)
    with l show ?thesis by (simp add: sender_main_def)
  next
    case (Returned st1)
    with l have inv1: "gate_inv cfg st1" by simp
    note d = drain_xfers_gate [OF inv1, of "[0..<NUM_BUFFERS cfg]"]
    show ?thesis
    proof (cases "drain_xfers [0..<NUM_BUFFERS cfg] st1")
      case (Pending s)
      with Returned d show ?thesis by (simp add: sender_main_def)
    next
      case (Raised e s)
      with Returned d show ?thesis by (simp add: sender_main_def)
    next
      case st2: (Returned st2)
      with d have inv2: "gate_inv cfg st2" by simp
      have "gate_inv cfg (st2\<lparr>trace := trace st2 @ cleanup_events cfg\<rparr>)"
        by (rule gate_inv_neutral [OF inv2, where es = "cleanup_events cfg"])
           (auto simp add: cleanup_events_def)
      with Returned st2 show ?thesis by (simp add: sender_main_def)
    qed
  qed
qed

lemma gated_split:
  assumes "gated K 0 es" and "es = pre @ Transfer i slot r # post"
  shows "int i - progress_at pre < K"
  using assms by (simp add: gated_append progress_at_def)

text \<open>
  C3. In every run of the sender, the values that \<open>receiver_progress\<close> takes, the
  initial 0 and then each value assigned at either drain, are strictly increasing, hence
  non-decreasing, and the variable holds the last of them. At an update site, whatever
  the drained payloads are, in whatever order and however often repeated, the scan never
  lowers \<open>receiver_progress\<close>.
\<close>

theorem receiver_progress_monotone:
  "sorted_wrt (<) (0 # progress_values (trace (reached
       (sender_main py_int cfg receiver_name buffers_addr m notifs polls xfers))))
   \<and> sorted (0 # progress_values (trace (reached
       (sender_main py_int cfg receiver_name buffers_addr m notifs polls xfers))))
   \<and> receiver_progress (reached
       (sender_main py_int cfg receiver_name buffers_addr m notifs polls xfers))
     = progress_at (trace (reached
       (sender_main py_int cfg receiver_name buffers_addr m notifs polls xfers)))
   \<and> receiver_progress st \<le> receiver_progress (reached (apply_progress py_int msgs st))
   \<and> receiver_progress st \<le> receiver_progress (reached (drain_progress py_int receiver_name n st))"
proof -
  let ?st = "reached (sender_main py_int cfg receiver_name buffers_addr m notifs polls xfers)"
  from sender_main_gate [of cfg py_int receiver_name buffers_addr m notifs polls xfers]
  have s: "sorted_wrt (<) (0 # progress_values (trace ?st))"
    and r: "receiver_progress ?st = progress_at (trace ?st)"
    by (simp_all add: gate_inv_def progress_inv_def)
  from s have "sorted (0 # progress_values (trace ?st))"
    by (rule sorted_wrt_mono_rel [rotated]) simp
  moreover have "receiver_progress st
      \<le> receiver_progress (reached (drain_progress py_int receiver_name n st))"
    by (simp add: drain_progress_def apply_progress_mono split: option.splits)
  ultimately show ?thesis
    using s r apply_progress_mono [of st py_int msgs] by simp
qed

text \<open>
  C2. In every run of the sender, returned or not, each transfer \<open>i\<close> was issued with
  \<open>i - receiver_progress < K\<close> for the progress known at that moment. Every value that
  \<open>ahead_count\<close> took, \<open>max_ahead\<close>, and the distance at the end are at most
  \<open>max 0 K\<close>; so for a threshold \<open>K \<ge> 0\<close>, as the module's \<open>NUM_BUFFERS - 4 = 60\<close>
  is, the ahead counter never exceeds \<open>K\<close>, and with it never \<open>K + 1\<close>.
\<close>

theorem backpressure_gate_bounds_ahead:
  "gated (BACKPRESSURE_THRESHOLD cfg) 0 (trace (reached
       (sender_main py_int cfg receiver_name buffers_addr m notifs polls xfers)))
   \<and> (\<forall>pre i slot r post.
        trace (reached (sender_main py_int cfg receiver_name buffers_addr m notifs polls xfers))
          = pre @ Transfer i slot r # post
        \<longrightarrow> int i - progress_at pre < BACKPRESSURE_THRESHOLD cfg)
   \<and> list_all (\<lambda>a. a \<le> max 0 (BACKPRESSURE_THRESHOLD cfg))
        (ahead_values (trace (reached
          (sender_main py_int cfg receiver_name buffers_addr m notifs polls xfers))))
   \<and> max_ahead (reached (sender_main py_int cfg receiver_name buffers_addr m notifs polls xfers))
        \<le> max 0 (BACKPRESSURE_THRESHOLD cfg)
   \<and> (0 \<le> BACKPRESSURE_THRESHOLD cfg \<longrightarrow>
        list_all (\<lambda>a. a \<le> BACKPRESSURE_THRESHOLD cfg + 1)
          (ahead_values (trace (reached
            (sender_main py_int cfg receiver_name buffers_addr m notifs polls xfers))))
        \<and> max_ahead (reached (sender_main py_int cfg receiver_name buffers_addr m notifs polls xfers))
          \<le> BACKPRESSURE_THRESHOLD cfg + 1
        \<and> int (transfers_sent (reached
              (sender_main py_int cfg receiver_name buffers_addr m notifs polls xfers)))
            - receiver_progress (reached
              (sender_main py_int cfg receiver_name buffers_addr m notifs polls xfers))
          \<le> BACKPRESSURE_THRESHOLD cfg + 1)"
proof -
  let ?st = "reached (sender_main py_int cfg receiver_name buffers_addr m notifs polls xfers)"
  let ?K = "BACKPRESSURE_THRESHOLD cfg"
  from sender_main_gate [of cfg py_int receiver_name buffers_addr m notifs polls xfers]
  have g: "gated ?K 0 (trace ?st)"
    and a: "int (transfers_sent ?st) - receiver_progress ?st \<le> max 0 ?K"
    and x: "max_ahead ?st \<le> max 0 ?K"
    and v: "list_all (\<lambda>a. a \<le> max 0 ?K) (ahead_values (trace ?st))"
    by (simp_all add: gate_inv_def)
  have s: "int i - progress_at pre < ?K"
    if "trace ?st = pre @ Transfer i slot r # post" for pre i slot r post
    using gated_split [OF g that] .
  have "list_all (\<lambda>a. a \<le> ?K + 1) (ahead_values (trace ?st))" if "0 \<le> ?K"
    using v that by (auto simp add: list_all_iff)
  with g a x v s show ?thesis by auto
qed

subsection \<open>A failed transfer and the shutdown drain\<close>

lemma no_fault_append [simp]: "no_fault (xs @ ys) = (no_fault xs \<and> no_fault ys)"
  by (simp add: no_fault_def)

lemma no_fault_Nil [simp]: "no_fault []"
  by (simp add: no_fault_def)

lemma no_fault_Cons [simp]:
  "no_fault (e # es) = (\<not> is_failed_transfer e \<and> \<not> is_release e \<and> no_fault es)"
  by (auto simp add: no_fault_def)

















subsection \<open>Concrete runs\<close>

lemma upt_0_6: "[0..<6] = [0, 1, 2, 3, 4, 5]"
  by (simp add: upt_rec)

lemmas sender_eval =
  sender_main_def sender_start_def sender_loop.simps sender_iteration_def issue_transfer_def
  backpressure_check_def drain_progress_def six_config_def decimal_int_def cleanup_events_def
  late_progress_notifs_def late_progress_polls_def failed_transfer_polls_def
  Let_def memory_eval upt_0_6

lemma late_progress_run:
  "(case sender_main decimal_int six_config ''receiver'' 0 (\<lambda>_. 0)
       late_progress_notifs late_progress_polls [PROC, PROC, DONE, PROC] of
      Returned st \<Rightarrow>
        trace st =
          [AheadCount 0, CheckXferState 0 PollRaised, WriteHeader 0 0, Transfer 0 0 PROC,
           AheadCount 1, CheckXferState 1 PollRaised, WriteHeader 16 1, Transfer 1 1 PROC,
           SetProgress 1,
           AheadCount 1, CheckXferState 2 PollRaised, WriteHeader 32 2, Transfer 2 2 DONE,
           AheadCount 2, SetProgress 3, AheadCount 0,
           CheckXferState 3 PollRaised, WriteHeader 48 3, Transfer 3 3 PROC,
           CheckXferState 0 (Polled PROC), CheckXferState 0 (Polled DONE),
           CheckXferState 1 (Polled DONE), CheckXferState 2 (Polled DONE),
           CheckXferState 3 (Polled DONE), CheckXferState 4 PollRaised,
           CheckXferState 5 PollRaised,
           ReleaseXferHandle 0, ReleaseXferHandle 1, ReleaseXferHandle 2,
           ReleaseXferHandle 3, ReleaseXferHandle 4, ReleaseXferHandle 5,
           ReleaseDlistHandle ''local_buffers_prep'',
           ReleaseDlistHandle ''remote_buffers_prep'', DeregisterMemory, FreePassthru]
        \<and> transfers_sent st = 4 \<and> receiver_progress st = 3 \<and> max_ahead st = 2
        \<and> backpressure_checks st = 1
    | Pending st \<Rightarrow> False
    | Raised e st \<Rightarrow> False)"
  by (simp add: sender_eval)


theorem receiver_progress_monotone_witness:
  "progress_values (trace (reached (sender_main decimal_int six_config ''receiver'' 0 (\<lambda>_. 0)
       late_progress_notifs late_progress_polls [PROC, PROC, DONE, PROC]))) = [1, 3]
   \<and> sorted_wrt (<) (0 # progress_values (trace (reached
       (sender_main decimal_int six_config ''receiver'' 0 (\<lambda>_. 0)
          late_progress_notifs late_progress_polls [PROC, PROC, DONE, PROC]))))
   \<and> receiver_progress (reached (sender_main decimal_int six_config ''receiver'' 0 (\<lambda>_. 0)
       late_progress_notifs late_progress_polls [PROC, PROC, DONE, PROC])) = 3"
  using receiver_progress_monotone [of decimal_int six_config "''receiver''" 0 "\<lambda>_. 0"
      late_progress_notifs late_progress_polls "[PROC, PROC, DONE, PROC]"]
    late_progress_run
  by (auto split: outcome.splits)

theorem backpressure_gate_bounds_ahead_witness:
  "0 \<le> BACKPRESSURE_THRESHOLD six_config
   \<and> trace (reached (sender_main decimal_int six_config ''receiver'' 0 (\<lambda>_. 0)
        late_progress_notifs late_progress_polls [PROC, PROC, DONE, PROC]))
     = [AheadCount 0, CheckXferState 0 PollRaised, WriteHeader 0 0, Transfer 0 0 PROC,
        AheadCount 1, CheckXferState 1 PollRaised, WriteHeader 16 1, Transfer 1 1 PROC,
        SetProgress 1,
        AheadCount 1, CheckXferState 2 PollRaised, WriteHeader 32 2, Transfer 2 2 DONE,
        AheadCount 2, SetProgress 3, AheadCount 0,
        CheckXferState 3 PollRaised, WriteHeader 48 3]
       @ Transfer 3 3 PROC #
       [CheckXferState 0 (Polled PROC), CheckXferState 0 (Polled DONE),
        CheckXferState 1 (Polled DONE), CheckXferState 2 (Polled DONE),
        CheckXferState 3 (Polled DONE), CheckXferState 4 PollRaised,
        CheckXferState 5 PollRaised,
        ReleaseXferHandle 0, ReleaseXferHandle 1, ReleaseXferHandle 2,
        ReleaseXferHandle 3, ReleaseXferHandle 4, ReleaseXferHandle 5,
        ReleaseDlistHandle ''local_buffers_prep'',
        ReleaseDlistHandle ''remote_buffers_prep'', DeregisterMemory, FreePassthru]
   \<and> int 3 - progress_at
        [AheadCount 0, CheckXferState 0 PollRaised, WriteHeader 0 0, Transfer 0 0 PROC,
         AheadCount 1, CheckXferState 1 PollRaised, WriteHeader 16 1, Transfer 1 1 PROC,
         SetProgress 1,
         AheadCount 1, CheckXferState 2 PollRaised, WriteHeader 32 2, Transfer 2 2 DONE,
         AheadCount 2, SetProgress 3, AheadCount 0,
         CheckXferState 3 PollRaised, WriteHeader 48 3]
       < BACKPRESSURE_THRESHOLD six_config
   \<and> max_ahead (reached (sender_main decimal_int six_config ''receiver'' 0 (\<lambda>_. 0)
        late_progress_notifs late_progress_polls [PROC, PROC, DONE, PROC]))
       \<le> BACKPRESSURE_THRESHOLD six_config + 1
   \<and> list_all (\<lambda>a. a \<le> BACKPRESSURE_THRESHOLD six_config + 1)
        (ahead_values (trace (reached (sender_main decimal_int six_config ''receiver'' 0 (\<lambda>_. 0)
           late_progress_notifs late_progress_polls [PROC, PROC, DONE, PROC]))))"
proof -
  let ?run = "sender_main decimal_int six_config ''receiver'' 0 (\<lambda>_. 0)
      late_progress_notifs late_progress_polls [PROC, PROC, DONE, PROC]"
  let ?pre = "[AheadCount 0, CheckXferState 0 PollRaised, WriteHeader 0 0, Transfer 0 0 PROC,
        AheadCount 1, CheckXferState 1 PollRaised, WriteHeader 16 1, Transfer 1 1 PROC,
        SetProgress 1,
        AheadCount 1, CheckXferState 2 PollRaised, WriteHeader 32 2, Transfer 2 2 DONE,
        AheadCount 2, SetProgress 3, AheadCount 0,
        CheckXferState 3 PollRaised, WriteHeader 48 3]"
  let ?post = "[CheckXferState 0 (Polled PROC), CheckXferState 0 (Polled DONE),
        CheckXferState 1 (Polled DONE), CheckXferState 2 (Polled DONE),
        CheckXferState 3 (Polled DONE), CheckXferState 4 PollRaised,
        CheckXferState 5 PollRaised,
        ReleaseXferHandle 0, ReleaseXferHandle 1, ReleaseXferHandle 2,
        ReleaseXferHandle 3, ReleaseXferHandle 4, ReleaseXferHandle 5,
        ReleaseDlistHandle ''local_buffers_prep'',
        ReleaseDlistHandle ''remote_buffers_prep'', DeregisterMemory, FreePassthru]"
  have k: "0 \<le> BACKPRESSURE_THRESHOLD six_config"
    by (simp add: six_config_def)
  have split: "trace (reached ?run) = ?pre @ Transfer 3 3 PROC # ?post"
    using late_progress_run by (auto split: outcome.splits)
  note gate = backpressure_gate_bounds_ahead [of six_config decimal_int "''receiver''" 0
      "\<lambda>_. 0" late_progress_notifs late_progress_polls "[PROC, PROC, DONE, PROC]"]
  from gate split have "int 3 - progress_at ?pre < BACKPRESSURE_THRESHOLD six_config"
    by blast
  moreover from gate k
  have "max_ahead (reached ?run) \<le> BACKPRESSURE_THRESHOLD six_config + 1"
    and "list_all (\<lambda>a. a \<le> BACKPRESSURE_THRESHOLD six_config + 1)
        (ahead_values (trace (reached ?run)))"
    by blast+
  ultimately show ?thesis using k split by blast
qed



end
